theory Spec2Isabelle
  imports Complex_Main "HOL-Library.Multiset"
begin

section \<open>Documents, chunks and their metadata\<close>

text \<open>
  A langchain \<open>Document\<close> carries its text and a metadata dictionary. The code reads the
  keys \<open>source\<close> and \<open>page\<close> with \<open>dict.get\<close> (absent keys read as \<open>None\<close>) and writes
  the key \<open>id\<close>; the three keys are the fields of the record, \<open>None\<close> meaning that the key
  is absent. The key \<open>id\<close> is the field \<open>id_md\<close>.
\<close>

record metadata =
  source :: "string option"
  page :: "int option"
  id_md :: "string option"

record Document =
  page_content :: string
  metadata :: metadata

subsection \<open>Python's \<open>str\<close> on integers and the f-string renderings\<close>

text \<open>Decimal digits, most significant first; \<open>digit_char\<close> is only applied below 10.\<close>

definition digit_char :: "nat \<Rightarrow> char" where
  "digit_char d = ''0123456789'' ! d"

function str_nat :: "nat \<Rightarrow> string" where
  "str_nat n = (if n < 10 then [digit_char n] else str_nat (n div 10) @ [digit_char (n mod 10)])"
  by pat_completeness auto
termination
  by (relation "measure (\<lambda>n. n)") auto

declare str_nat.simps [simp del]

definition str_int :: "int \<Rightarrow> string" where
  "str_int i = (if i < 0 then CHR ''-'' # str_nat (nat (- i)) else str_nat (nat i))"

text \<open>An f-string field renders \<open>None\<close> as the text \<open>None\<close>.\<close>

definition fmt_source :: "string option \<Rightarrow> string" where
  "fmt_source s = (case s of None \<Rightarrow> ''None'' | Some x \<Rightarrow> x)"

definition fmt_page :: "int option \<Rightarrow> string" where
  "fmt_page p = (case p of None \<Rightarrow> ''None'' | Some i \<Rightarrow> str_int i)"

section \<open>The chunk identity assigner: \<open>calculate_chunk_ids\<close>\<close>

text \<open>\<open>current_page_id = f"{source}:{page}"\<close> (populate_database.py, lines 156-158).\<close>

definition current_page_id :: "Document \<Rightarrow> string" where
  "current_page_id chunk =
     fmt_source (source (metadata chunk)) @ '':'' @ fmt_page (page (metadata chunk))"

definition set_id :: "string \<Rightarrow> Document \<Rightarrow> Document" where
  "set_id chunk_id chunk = chunk\<lparr>metadata := (metadata chunk)\<lparr>id_md := Some chunk_id\<rparr>\<rparr>"

text \<open>
  The loop of lines 155-167, with its two variables \<open>last_page_id\<close> (initially \<open>None\<close>) and
  \<open>current_chunk_index\<close> passed along.
\<close>

fun chunk_ids_loop :: "string option \<Rightarrow> nat \<Rightarrow> Document list \<Rightarrow> Document list" where
  "chunk_ids_loop last_page_id current_chunk_index [] = []"
| "chunk_ids_loop last_page_id current_chunk_index (chunk # chunks) =
     (let pid = current_page_id chunk;
          idx = (if Some pid = last_page_id then current_chunk_index + 1 else 0);
          chunk_id = pid @ '':'' @ str_nat idx
      in set_id chunk_id chunk # chunk_ids_loop (Some pid) idx chunks)"

definition calculate_chunk_ids :: "Document list \<Rightarrow> Document list" where
  "calculate_chunk_ids chunks = chunk_ids_loop None 0 chunks"

definition chunk_ids :: "Document list \<Rightarrow> string option list" where
  "chunk_ids chunks = map (\<lambda>c. id_md (metadata c)) chunks"

subsection \<open>The algorithm as the specification words it\<close>




subsection \<open>Auxiliary notions for stating the properties\<close>

text \<open>The pair the page id is rendered from, and whether both keys are present.\<close>

definition source_page :: "Document \<Rightarrow> string option \<times> int option" where
  "source_page chunk = (source (metadata chunk), page (metadata chunk))"

definition has_source_page :: "Document \<Rightarrow> bool" where
  "has_source_page chunk = (source (metadata chunk) \<noteq> None \<and> page (metadata chunk) \<noteq> None)"

text \<open>The ids the loop assigns, as a function of the page ids alone.\<close>

fun page_ids_loop :: "string option \<Rightarrow> nat \<Rightarrow> string list \<Rightarrow> string list" where
  "page_ids_loop lastp idx [] = []"
| "page_ids_loop lastp idx (pid # pids) =
     (let idx' = (if Some pid = lastp then idx + 1 else 0)
      in (pid @ '':'' @ str_nat idx') # page_ids_loop (Some pid) idx' pids)"

text \<open>
  A list is grouped when equal elements are adjacent: no element occurs again after the
  run of equal elements that follows it. This is the precondition of section 4.3.
\<close>

fun grouped :: "'a list \<Rightarrow> bool" where
  "grouped [] = True"
| "grouped (x # xs) = (x \<notin> set (dropWhile (\<lambda>y. y = x) xs) \<and> grouped xs)"

text \<open>Three chunks in which page 0 of \<open>a.pdf\<close> reappears after a chunk of \<open>b.pdf\<close>.\<close>

definition interleaved_chunks :: "Document list" where
  "interleaved_chunks =
     [\<lparr>page_content = ''first'', metadata = \<lparr>source = Some ''a.pdf'', page = Some 0, id_md = None\<rparr>\<rparr>,
      \<lparr>page_content = ''second'', metadata = \<lparr>source = Some ''b.pdf'', page = Some 0, id_md = None\<rparr>\<rparr>,
      \<lparr>page_content = ''third'', metadata = \<lparr>source = Some ''a.pdf'', page = Some 0, id_md = None\<rparr>\<rparr>]"


text \<open>
  \<open>split_documents\<close> (lines 59-62) hands the documents to the external text splitter, a
  parameter here.
\<close>

definition split_documents :: "(Document list \<Rightarrow> Document list) \<Rightarrow> Document list \<Rightarrow> Document list" where
  "split_documents text_splitter documents = text_splitter documents"

text \<open>The example of the specification: two chunks of page 0 of \<open>a.pdf\<close>, then another file.\<close>

definition mk_chunk :: "string \<Rightarrow> int \<Rightarrow> string \<Rightarrow> Document" where
  "mk_chunk src pg txt =
     \<lparr>page_content = txt, metadata = \<lparr>source = Some src, page = Some pg, id_md = None\<rparr>\<rparr>"

definition example_chunks :: "Document list" where
  "example_chunks = [mk_chunk ''a.pdf'' 0 ''one'', mk_chunk ''a.pdf'' 0 ''two'', mk_chunk ''b.pdf'' 0 ''three'']"


section \<open>The vector index\<close>

text \<open>
  The Chroma collection is external; the code uses it through \<open>get\<close>, \<open>delete\<close>, \<open>update\<close>
  and \<open>add_documents\<close>. It is modelled as the list of its records in the order \<open>get\<close>
  returns them: a record has the id it is stored under, its metadata dictionary and its
  text (the embedding is a function of the text and is left out). A store call is modelled
  on its normal return; a call that raises aborts the pass (section 4.4 of the
  specification) and is not part of the model.
\<close>

record index_record =
  rec_id :: string
  rec_metadata :: metadata
  rec_content :: string

type_synonym chroma = "index_record list"

datatype error = KeyError string

definition db_get_ids :: "chroma \<Rightarrow> string list" where
  "db_get_ids db = map rec_id db"

definition db_get_metadatas :: "chroma \<Rightarrow> metadata list" where
  "db_get_metadatas db = map rec_metadata db"

definition db_delete :: "string list \<Rightarrow> chroma \<Rightarrow> chroma" where
  "db_delete ids db = filter (\<lambda>r. rec_id r \<notin> set ids) db"

text \<open>\<open>db.update(ids=[doc_id], metadatas=[md])\<close>: the metadata of the record stored under the id.\<close>

definition db_update :: "string \<Rightarrow> metadata \<Rightarrow> chroma \<Rightarrow> chroma" where
  "db_update doc_id md db =
     map (\<lambda>r. if rec_id r = doc_id then r\<lparr>rec_metadata := md\<rparr> else r) db"

text \<open>
  \<open>add_documents\<close> of langchain's Chroma wrapper upserts: a record stored under the id is
  replaced, a new id is appended.
\<close>

fun upsert :: "index_record \<Rightarrow> chroma \<Rightarrow> chroma" where
  "upsert r [] = [r]"
| "upsert r (x # xs) = (if rec_id x = rec_id r then r # xs else x # upsert r xs)"

definition db_add_documents :: "Document list \<Rightarrow> string list \<Rightarrow> chroma \<Rightarrow> chroma" where
  "db_add_documents documents ids db =
     fold upsert
       (map (\<lambda>(d, i). \<lparr>rec_id = i, rec_metadata = metadata d, rec_content = page_content d\<rparr>)
          (zip documents ids)) db"

text \<open>
  An index as this program leaves it: ids are unique (the store's own invariant), and every
  record's metadata holds the id it is stored under and a source, as \<open>add_to_chroma\<close> writes
  them for chunks of loaded files.
\<close>

definition wf_index :: "chroma \<Rightarrow> bool" where
  "wf_index db =
     (distinct (map rec_id db) \<and>
      list_all (\<lambda>r. id_md (rec_metadata r) = Some (rec_id r) \<and> source (rec_metadata r) \<noteq> None) db)"

section \<open>The index writer: \<open>add_to_chroma\<close>\<close>

definition BATCH_SIZE :: nat where
  "BATCH_SIZE = 50"

text \<open>\<open>chunk.metadata["id"]\<close> raises \<open>KeyError\<close> on a chunk without the key.\<close>

definition metadata_id :: "metadata \<Rightarrow> error + string" where
  "metadata_id md = (case id_md md of None \<Rightarrow> Inl (KeyError ''id'') | Some i \<Rightarrow> Inr i)"

definition metadata_source :: "metadata \<Rightarrow> error + string" where
  "metadata_source md = (case source md of None \<Rightarrow> Inl (KeyError ''source'') | Some s \<Rightarrow> Inr s)"

text \<open>A list comprehension whose element expression may raise: the first error ends it.\<close>

fun collect :: "('a \<Rightarrow> error + 'b) \<Rightarrow> 'a list \<Rightarrow> error + 'b list" where
  "collect f [] = Inr []"
| "collect f (x # xs) =
     (case f x of
        Inl e \<Rightarrow> Inl e
      | Inr y \<Rightarrow> (case collect f xs of Inl e \<Rightarrow> Inl e | Inr ys \<Rightarrow> Inr (y # ys)))"

text \<open>
  Line 135: \<open>[chunk for chunk in chunks_with_ids if chunk.metadata["id"] not in existing_ids]\<close>.
\<close>

fun new_chunks_of :: "string list \<Rightarrow> Document list \<Rightarrow> error + Document list" where
  "new_chunks_of existing_ids [] = Inr []"
| "new_chunks_of existing_ids (chunk # chunks) =
     (case metadata_id (metadata chunk) of
        Inl e \<Rightarrow> Inl e
      | Inr i \<Rightarrow>
          (case new_chunks_of existing_ids chunks of
             Inl e \<Rightarrow> Inl e
           | Inr rest \<Rightarrow> Inr (if i \<notin> set existing_ids then chunk # rest else rest)))"

text \<open>
  Lines 140-141: \<open>for i in range(0, len(new_chunks), BATCH_SIZE)\<close> with the slice
  \<open>new_chunks[i:i + BATCH_SIZE]\<close>.
\<close>

function batch_loop :: "nat \<Rightarrow> 'a list \<Rightarrow> 'a list list" where
  "batch_loop i new_chunks =
     (if i < length new_chunks
      then take BATCH_SIZE (drop i new_chunks) # batch_loop (i + BATCH_SIZE) new_chunks
      else [])"
  by pat_completeness auto
termination
  by (relation "measure (\<lambda>(i, new_chunks). length new_chunks - i)") (auto simp: BATCH_SIZE_def)

declare batch_loop.simps [simp del]

text \<open>
  One write call: \<open>db.add_documents(batch, ids=[chunk.metadata["id"] for chunk in batch])\<close>.
  A call is recorded with its two arguments.
\<close>

type_synonym write_call = "Document list \<times> string list"

fun write_batches :: "Document list list \<Rightarrow> chroma \<Rightarrow> error + chroma \<times> write_call list" where
  "write_batches [] db = Inr (db, [])"
| "write_batches (batch # batches) db =
     (case collect (\<lambda>chunk. metadata_id (metadata chunk)) batch of
        Inl e \<Rightarrow> Inl e
      | Inr ids \<Rightarrow>
          (case write_batches batches (db_add_documents batch ids db) of
             Inl e \<Rightarrow> Inl e
           | Inr (db', calls) \<Rightarrow> Inr (db', (batch, ids) # calls)))"

text \<open>
  \<open>add_to_chroma\<close> (lines 123-147) returns the index after the pass and the write calls it
  issued, in order.
\<close>

definition add_to_chroma :: "Document list \<Rightarrow> chroma \<Rightarrow> error + chroma \<times> write_call list" where
  "add_to_chroma chunks db =
     (let chunks_with_ids = calculate_chunk_ids chunks;
          existing_ids = db_get_ids db
      in case new_chunks_of existing_ids chunks_with_ids of
           Inl e \<Rightarrow> Inl e
         | Inr new_chunks \<Rightarrow>
             if new_chunks \<noteq> [] then write_batches (batch_loop 0 new_chunks) db
             else Inr (db, []))"

section \<open>The synchronizer: \<open>sync_with_directory\<close>\<close>

text \<open>\<open>os.path.basename\<close> on a POSIX path: what follows the last slash.\<close>

definition basename :: "string \<Rightarrow> string" where
  "basename path = rev (takeWhile (\<lambda>c. c \<noteq> CHR ''/'') (rev path))"

text \<open>
  \<open>detect_renamed_files\<close> (lines 100-109). The two sets are given as the lists of their
  elements in iteration order; the dictionary is the list of its items, whose keys are
  distinct because the elements of \<open>existing_sources\<close> are.
\<close>

fun first_match :: "string \<Rightarrow> string list \<Rightarrow> string option" where
  "first_match src [] = None"
| "first_match src (new_source # rest) =
     (if basename src = basename new_source then Some new_source else first_match src rest)"

fun detect_renamed_files :: "string list \<Rightarrow> string list \<Rightarrow> (string \<times> string) list" where
  "detect_renamed_files [] current_sources = []"
| "detect_renamed_files (src # existing_sources) current_sources =
     (if src \<notin> set current_sources
      then (case first_match src current_sources of
              Some new_source \<Rightarrow> (src, new_source) # detect_renamed_files existing_sources current_sources
            | None \<Rightarrow> detect_renamed_files existing_sources current_sources)
      else detect_renamed_files existing_sources current_sources)"

text \<open>
  \<open>update_source_in_db\<close> (lines 112-120): the loop runs over the metadata fetched once at
  line 114 and updates the store record by record.
\<close>

fun update_loop :: "string \<Rightarrow> string \<Rightarrow> metadata list \<Rightarrow> chroma \<Rightarrow> error + chroma" where
  "update_loop old_source new_source [] db = Inr db"
| "update_loop old_source new_source (md # mds) db =
     (case metadata_source md of
        Inl e \<Rightarrow> Inl e
      | Inr s \<Rightarrow>
          if s = old_source
          then (case metadata_id md of
                  Inl e \<Rightarrow> Inl e
                | Inr doc_id \<Rightarrow>
                    update_loop old_source new_source mds
                      (db_update doc_id (md\<lparr>source := Some new_source\<rparr>) db))
          else update_loop old_source new_source mds db)"

definition update_source_in_db :: "chroma \<Rightarrow> string \<Rightarrow> string \<Rightarrow> error + chroma" where
  "update_source_in_db db old_source new_source =
     update_loop old_source new_source (db_get_metadatas db) db"

fun update_renamed :: "(string \<times> string) list \<Rightarrow> chroma \<Rightarrow> error + chroma" where
  "update_renamed [] db = Inr db"
| "update_renamed ((old_source, new_source) # renamed_files) db =
     (case update_source_in_db db old_source new_source of
        Inl e \<Rightarrow> Inl e
      | Inr db' \<Rightarrow> update_renamed renamed_files db')"

text \<open>
  \<open>sync_with_directory\<close> (lines 65-97). \<open>current_sources\<close>, the value of lines 80-81 (the
  absolute paths of the \<open>.pdf\<close> entries of the data directory), is the listing the
  operating system returns and a parameter here. Line 88 reads the key \<open>id\<close> only of the
  metadata whose source is removed.
\<close>

definition removed_ids_of :: "string list \<Rightarrow> metadata list \<Rightarrow> error + string list" where
  "removed_ids_of removed_sources metadatas =
     collect metadata_id
       (filter (\<lambda>doc. source doc \<in> Some ` set removed_sources) metadatas)"

definition sync_with_directory :: "chroma \<Rightarrow> string list \<Rightarrow> error + chroma" where
  "sync_with_directory db current_sources =
     (let metadatas = db_get_metadatas db
      in case collect metadata_source metadatas of
           Inl e \<Rightarrow> Inl e
         | Inr sources \<Rightarrow>
             (let existing_sources = remdups sources;
                  removed_sources = filter (\<lambda>s. s \<notin> set current_sources) existing_sources
              in (case (if removed_sources \<noteq> []
                        then (case removed_ids_of removed_sources metadatas of
                                Inl e \<Rightarrow> Inl e
                              | Inr removed_ids \<Rightarrow> Inr (db_delete removed_ids db))
                        else Inr db) of
                    Inl e \<Rightarrow> Inl e
                  | Inr db' \<Rightarrow>
                      (let renamed_files = detect_renamed_files existing_sources current_sources
                       in if renamed_files \<noteq> [] then update_renamed renamed_files db'
                          else Inr db'))))"

section \<open>The ingestion pipeline: \<open>main\<close> of populate_database.py\<close>

text \<open>\<open>clear_database\<close> removes the persistence directory: the index is empty afterwards.\<close>

definition clear_database :: "chroma \<Rightarrow> chroma" where
  "clear_database db = []"

text \<open>
  \<open>main\<close> (lines 23-50): optional reset, synchronization, loading, splitting, writing. The
  documents the external loader returns and the external splitter are parameters.
\<close>

definition main :: "bool \<Rightarrow> string list \<Rightarrow> Document list \<Rightarrow> (Document list \<Rightarrow> Document list) \<Rightarrow>
    chroma \<Rightarrow> error + chroma \<times> write_call list" where
  "main reset current_sources documents text_splitter db =
     (let db0 = (if reset then clear_database db else db)
      in case sync_with_directory db0 current_sources of
           Inl e \<Rightarrow> Inl e
         | Inr db1 \<Rightarrow> add_to_chroma (split_documents text_splitter documents) db1)"

section \<open>Notions used to state the properties of the index\<close>

text \<open>The source of a record, read where it is present.\<close>

definition src_of :: "index_record \<Rightarrow> string" where
  "src_of r = (case source (rec_metadata r) of Some s \<Rightarrow> s | None \<Rightarrow> [])"

text \<open>A chunk that carries the key \<open>id\<close>.\<close>

definition has_id :: "Document \<Rightarrow> bool" where
  "has_id chunk = (id_md (metadata chunk) \<noteq> None)"

text \<open>The new chunks of a pass: the identified chunks whose id the index does not hold.\<close>

definition new_chunks :: "Document list \<Rightarrow> chroma \<Rightarrow> Document list" where
  "new_chunks chunks db =
     filter (\<lambda>c. id_md (metadata c) \<notin> Some ` set (db_get_ids db)) (calculate_chunk_ids chunks)"

text \<open>
  An index in step with the corpus: unique ids, and every record holds its own id and the
  path of a current file.
\<close>

definition good_record :: "string list \<Rightarrow> index_record \<Rightarrow> bool" where
  "good_record current_sources r =
     (id_md (rec_metadata r) = Some (rec_id r) \<and>
      (\<exists>s\<in>set current_sources. source (rec_metadata r) = Some s))"

definition synced_index :: "string list \<Rightarrow> chroma \<Rightarrow> bool" where
  "synced_index current_sources db =
     (distinct (map rec_id db) \<and> list_all (good_record current_sources) db)"

text \<open>
  \<open>existing_sources\<close> is the set of line 77; a record's source is removed when it is in
  \<open>existing_sources - current_sources\<close> (line 84).
\<close>

definition existing_sources :: "chroma \<Rightarrow> string set" where
  "existing_sources db =
     set (concat (map (\<lambda>r. case source (rec_metadata r) of None \<Rightarrow> [] | Some s \<Rightarrow> [s]) db))"

definition source_removed :: "chroma \<Rightarrow> string list \<Rightarrow> index_record \<Rightarrow> bool" where
  "source_removed db current_sources r =
     (case source (rec_metadata r) of
        None \<Rightarrow> False
      | Some s \<Rightarrow> s \<in> existing_sources db - set current_sources)"

text \<open>Example indexes: two files of one directory, and a file whose directory changed.\<close>

definition mk_record :: "string \<Rightarrow> string \<Rightarrow> index_record" where
  "mk_record src chunk_id =
     \<lparr>rec_id = chunk_id,
      rec_metadata = \<lparr>source = Some src, page = Some 0, id_md = Some chunk_id\<rparr>,
      rec_content = ''text''\<rparr>"

definition example_index :: chroma where
  "example_index =
     [mk_record ''/data/a.pdf'' ''/data/a.pdf:0:0'',
      mk_record ''/data/b.pdf'' ''/data/b.pdf:0:0'',
      mk_record ''/data/a.pdf'' ''/data/a.pdf:0:1'']"

definition moved_index :: chroma where
  "moved_index =
     [mk_record ''/old/a.pdf'' ''/old/a.pdf:0:0'',
      mk_record ''/old/a.pdf'' ''/old/a.pdf:0:1'']"





section \<open>The process supervisor: watcher.py\<close>

text \<open>
  The supervisor is sequential: \<open>main\<close> runs in the main thread up to \<open>observer.join()\<close>,
  and afterwards the observer dispatches one event at a time to \<open>on_any_event\<close>, which runs
  \<open>restart_server\<close> to its end before the next event is delivered (section 5 of the
  specification). The model is a step function on the supervisor's state, driven by what
  the environment contributes: the outcome of the synchronization subprocess, file events,
  the exit of a service process, a keyboard interrupt. The control points are the
  statements between which something observable happens:
  \<^item> \<open>Main_populate\<close>: line 62, \<open>subprocess.run(POPULATE_DB_COMMAND, check=True)\<close> in \<open>main\<close>;
  \<^item> \<open>Main_spawn\<close>: line 70, \<open>server_process = subprocess.Popen(SERVER_COMMAND)\<close>;
  \<^item> \<open>Watching\<close>: line 82, \<open>observer.join()\<close>, the handler is idle;
  \<^item> \<open>Restart_check\<close>: line 35, \<open>if server_process:\<close>;
  \<^item> \<open>Restart_terminate\<close>: line 37, \<open>server_process.terminate()\<close>;
  \<^item> \<open>Restart_wait\<close>: line 38, \<open>server_process.wait()\<close>;
  \<^item> \<open>Restart_populate\<close>: line 44, \<open>subprocess.run(POPULATE_DB_COMMAND, check=True)\<close>;
  \<^item> \<open>Restart_spawn\<close>: line 52, \<open>server_process = subprocess.Popen(SERVER_COMMAND)\<close>;
  \<^item> \<open>Exited\<close>: \<open>main\<close> has returned.
\<close>

datatype pc =
    Main_populate
  | Main_spawn
  | Watching
  | Restart_check
  | Restart_terminate
  | Restart_wait
  | Restart_populate
  | Restart_spawn
  | Exited

text \<open>
  The state: the control point, the global \<open>server_process\<close> (a handle is the process id it
  was created with), the service processes that are alive in the operating system, and the
  id the next spawned process gets.
\<close>

record supervisor =
  pc :: pc
  server_process :: "nat option"
  live :: "nat set"
  next_pid :: nat

text \<open>
  \<open>Step\<close> executes the statement at the control point. \<open>Populate_result ok\<close> is the return of
  \<open>subprocess.run\<close>: normal, or \<open>CalledProcessError\<close>. \<open>File_event is_directory event_type\<close> is
  an event delivered to \<open>on_any_event\<close>. \<open>Process_exit p\<close> is the exit of a live service
  process, of its own or after the termination signal.
\<close>

datatype event =
    Step
  | Populate_result bool
  | File_event bool string
  | Process_exit nat
  | Keyboard_interrupt

text \<open>The state in which \<open>main\<close> starts: no handle, no service process.\<close>

definition initial :: supervisor where
  "initial = \<lparr>pc = Main_populate, server_process = None, live = {}, next_pid = 0\<rparr>"

text \<open>\<open>subprocess.Popen\<close>: a new live process, whose handle is stored in the global.\<close>

definition popen :: "supervisor \<Rightarrow> supervisor" where
  "popen s = s\<lparr>server_process := Some (next_pid s), live := insert (next_pid s) (live s),
     next_pid := next_pid s + 1\<rparr>"

text \<open>Line 24: the events that \<open>on_any_event\<close> does not return on.\<close>

definition qualifying :: "bool \<Rightarrow> string \<Rightarrow> bool" where
  "qualifying is_directory event_type =
     (\<not> (is_directory \<or> event_type \<notin> {''created'', ''modified'', ''deleted''}))"

text \<open>
  A step that is not enabled is \<open>None\<close>. \<open>server_process.wait()\<close> returns only once the
  process is no longer alive; \<open>terminate()\<close> sends the signal and returns, the process exits
  by a \<open>Process_exit\<close> of its own. A \<open>Popen\<close> object is truthy, so line 35 tests the global
  against \<open>None\<close>. After a failed synchronization \<open>restart_server\<close> returns (line 48)
  and leaves the global as it is. A keyboard interrupt ends \<open>observer.join()\<close>: lines 84-88
  send the termination signal and \<open>main\<close> returns; it is taken while the handler is idle.
\<close>

fun step :: "event \<Rightarrow> supervisor \<Rightarrow> supervisor option" where
  "step (Process_exit p) s =
     (if p \<in> live s then Some (s\<lparr>live := live s - {p}\<rparr>) else None)"
| "step (Populate_result ok) s =
     (case pc s of
        Main_populate \<Rightarrow> Some (s\<lparr>pc := (if ok then Main_spawn else Exited)\<rparr>)
      | Restart_populate \<Rightarrow> Some (s\<lparr>pc := (if ok then Restart_spawn else Watching)\<rparr>)
      | _ \<Rightarrow> None)"
| "step (File_event is_directory event_type) s =
     (case pc s of
        Watching \<Rightarrow>
          Some (if qualifying is_directory event_type then s\<lparr>pc := Restart_check\<rparr> else s)
      | _ \<Rightarrow> None)"
| "step Keyboard_interrupt s =
     (case pc s of Watching \<Rightarrow> Some (s\<lparr>pc := Exited\<rparr>) | _ \<Rightarrow> None)"
| "step Step s =
     (case pc s of
        Main_spawn \<Rightarrow> Some ((popen s)\<lparr>pc := Watching\<rparr>)
      | Restart_check \<Rightarrow>
          Some (s\<lparr>pc := (if server_process s \<noteq> None then Restart_terminate else Restart_populate)\<rparr>)
      | Restart_terminate \<Rightarrow> Some (s\<lparr>pc := Restart_wait\<rparr>)
      | Restart_wait \<Rightarrow>
          (case server_process s of
             Some p \<Rightarrow> if p \<in> live s then None else Some (s\<lparr>pc := Restart_populate\<rparr>)
           | None \<Rightarrow> None)
      | Restart_spawn \<Rightarrow> Some ((popen s)\<lparr>pc := Watching\<rparr>)
      | _ \<Rightarrow> None)"

fun run :: "event list \<Rightarrow> supervisor \<Rightarrow> supervisor option" where
  "run [] s = Some s"
| "run (e # es) s = (case step e s of None \<Rightarrow> None | Some s' \<Rightarrow> run es s')"

text \<open>
  The invariant: a live service process is the one the global refers to, and none is alive
  while the synchronization subprocess runs or a spawn is about to happen.
\<close>

definition handle_live :: "supervisor \<Rightarrow> bool" where
  "handle_live s =
     (live s \<subseteq> (case server_process s of None \<Rightarrow> {} | Some p \<Rightarrow> {p}) \<and>
      (pc s \<in> {Main_populate, Main_spawn, Restart_populate, Restart_spawn} \<longrightarrow> live s = {}))"

text \<open>No service process runs and none is about to be spawned.\<close>

definition stopped :: "supervisor \<Rightarrow> bool" where
  "stopped s = (live s = {} \<and> pc s \<noteq> Main_spawn \<and> pc s \<noteq> Restart_spawn)"

text \<open>
  A start-up followed by a file event, up to the synchronization subprocess of the restart.
\<close>

definition restart_trace :: "event list" where
  "restart_trace =
     [Populate_result True, Step, File_event False ''modified'', Step, Step, Process_exit 0, Step]"

section \<open>The log store: \<open>log_to_json\<close> of fastapi_app.py\<close>

text \<open>
  A JSON value as \<open>json.load\<close> returns it; a number is kept as its literal, since the logging
  path only moves values.
\<close>

datatype json =
    JNull
  | JBool bool
  | JNumber string
  | JString string
  | JList "json list"
  | JObject "(string \<times> json) list"

text \<open>
  The exceptions that the file operations, the JSON library and the list method raise; all
  of them derive from \<open>Exception\<close>. What is raised inside \<open>log_to_json\<close> is one of them, or
  an exception that derives from \<open>BaseException\<close> only, for which \<open>KeyboardInterrupt\<close> stands
  and which \<open>except Exception\<close> lets pass.
\<close>

datatype py_exception =
    FileNotFoundError
  | PermissionError
  | IsADirectoryError
  | UnicodeDecodeError
  | JSONDecodeError
  | RecursionError
  | AttributeError
  | TypeError
  | OSError

datatype raised = Exception py_exception | KeyboardInterrupt

definition is_Exception :: "raised \<Rightarrow> bool" where
  "is_Exception r = (case r of Exception e \<Rightarrow> True | KeyboardInterrupt \<Rightarrow> False)"

text \<open>
  What the file system contributes to one call: the bytes of the log file (\<open>None\<close> when it
  does not exist); the exception that opening the file for reading or reading its text
  raises, if any (\<open>PermissionError\<close>, \<open>IsADirectoryError\<close>, \<open>UnicodeDecodeError\<close> on bytes that
  do not decode); the exception that opening it for writing raises, if any; and the
  exception with which \<open>json.dump\<close> breaks off, if any, with the number of characters it has
  written by then.
\<close>

record log_env =
  log_file :: "string option"
  read_fault :: "py_exception option"
  open_write_fault :: "py_exception option"
  dump_fault :: "(py_exception \<times> nat) option"

text \<open>
  Lines 74-75: the log file is opened for reading and parsed. The parser \<open>json.load\<close> is a
  parameter; it returns the document or raises (\<open>JSONDecodeError\<close> on text that is not
  JSON).
\<close>

definition read_logs :: "(string \<Rightarrow> py_exception + json) \<Rightarrow> log_env \<Rightarrow> py_exception + json" where
  "read_logs json_load env =
     (case read_fault env of
        Some e \<Rightarrow> Inl e
      | None \<Rightarrow>
          (case log_file env of
             None \<Rightarrow> Inl FileNotFoundError
           | Some content \<Rightarrow> json_load content))"

text \<open>
  The inner \<open>try\<close> (lines 72-77): its handler keeps \<open>logs = []\<close> on the two exceptions it
  names and lets every other one pass.
\<close>

definition inner_try :: "(string \<Rightarrow> py_exception + json) \<Rightarrow> log_env \<Rightarrow> py_exception + json" where
  "inner_try json_load env =
     (case read_logs json_load env of
        Inl e \<Rightarrow> if e = FileNotFoundError \<or> e = JSONDecodeError then Inr (JList []) else Inl e
      | Inr logs \<Rightarrow> Inr logs)"

text \<open>Line 78, \<open>logs.append(data)\<close>: only a list has the method.\<close>

definition logs_append :: "json \<Rightarrow> json \<Rightarrow> py_exception + json" where
  "logs_append logs data =
     (case logs of JList entries \<Rightarrow> Inr (JList (entries @ [data])) | _ \<Rightarrow> Inl AttributeError)"

text \<open>
  Lines 79-80: the exception raised, if any, and the log file afterwards. Opening for
  writing truncates the file; a dump that breaks off leaves what it has written. The
  serializer \<open>json.dump\<close> with \<open>indent=4\<close> is a parameter.
\<close>

definition write_logs :: "(json \<Rightarrow> string) \<Rightarrow> log_env \<Rightarrow> json \<Rightarrow> py_exception option \<times> string option" where
  "write_logs json_dump env logs =
     (case open_write_fault env of
        Some e \<Rightarrow> (Some e, log_file env)
      | None \<Rightarrow>
          (case dump_fault env of
             Some (e, n) \<Rightarrow> (Some e, Some (take n (json_dump logs)))
           | None \<Rightarrow> (None, Some (json_dump logs))))"

text \<open>The body of the outer \<open>try\<close> (lines 72-80): what it raises, and the file afterwards.\<close>

definition log_to_json_body ::
    "(string \<Rightarrow> py_exception + json) \<Rightarrow> (json \<Rightarrow> string) \<Rightarrow> log_env \<Rightarrow> json \<Rightarrow>
     raised option \<times> string option" where
  "log_to_json_body json_load json_dump env data =
     (case inner_try json_load env of
        Inl e \<Rightarrow> (Some (Exception e), log_file env)
      | Inr logs \<Rightarrow>
          (case logs_append logs data of
             Inl e \<Rightarrow> (Some (Exception e), log_file env)
           | Inr logs' \<Rightarrow>
               (case write_logs json_dump env logs' of
                  (Some e, file) \<Rightarrow> (Some (Exception e), file)
                | (None, file) \<Rightarrow> (None, file))))"

text \<open>
  \<open>log_to_json\<close> (lines 70-82) with its effects: the exception that reaches the caller (if
  any), the log file afterwards, and the lines printed to the console. The outer handler
  (lines 81-82) catches what derives from \<open>Exception\<close> and prints it.
\<close>

record log_result =
  propagated :: "raised option"
  log_file_after :: "string option"
  printed :: "string list"

definition log_to_json ::
    "(string \<Rightarrow> py_exception + json) \<Rightarrow> (json \<Rightarrow> string) \<Rightarrow> log_env \<Rightarrow> json \<Rightarrow> log_result" where
  "log_to_json json_load json_dump env data =
     (case log_to_json_body json_load json_dump env data of
        (None, file) \<Rightarrow> \<lparr>propagated = None, log_file_after = file, printed = []\<rparr>
      | (Some r, file) \<Rightarrow>
          if is_Exception r
          then \<lparr>propagated = None, log_file_after = file, printed = [''Error logging data'']\<rparr>
          else \<lparr>propagated = Some r, log_file_after = file, printed = []\<rparr>)"

text \<open>
  Examples: a parser that accepts the empty list only, a serializer that renders a list by
  its length, a log record, and three states of the log file: readable text that is not
  JSON; bytes that do not decode; text that is not JSON in a file that cannot be opened for
  writing.
\<close>

definition example_json_load :: "string \<Rightarrow> py_exception + json" where
  "example_json_load content = (if content = ''[]'' then Inr (JList []) else Inl JSONDecodeError)"

definition example_json_dump :: "json \<Rightarrow> string" where
  "example_json_dump v = (case v of JList entries \<Rightarrow> ''[entries: '' @ str_nat (length entries) @ '']'' | _ \<Rightarrow> ''value'')"

definition example_record :: json where
  "example_record = JObject [(''query_text'', JString ''q''), (''error'', JString ''None'')]"

definition damaged_env :: log_env where
  "damaged_env =
     \<lparr>log_file = Some ''[{query_text: '', read_fault = None, open_write_fault = None,
      dump_fault = None\<rparr>"

definition undecodable_env :: log_env where
  "undecodable_env =
     \<lparr>log_file = Some [CHR 0xFF, CHR 0xFE], read_fault = Some UnicodeDecodeError,
      open_write_fault = None, dump_fault = None\<rparr>"

definition read_only_env :: log_env where
  "read_only_env =
     \<lparr>log_file = Some ''[{query_text: '', read_fault = None,
      open_write_fault = Some PermissionError, dump_fault = None\<rparr>"

section \<open>Properties of the identity assigner\<close>



lemma chunk_ids_loop_length [simp]: "length (chunk_ids_loop lastp idx chunks) = length chunks"
  by (induction chunks arbitrary: lastp idx) (auto simp: Let_def)




subsection \<open>Decimal rendering is injective and free of separators\<close>

lemma digit_cases:
  assumes "d < (10::nat)"
  obtains "d = 0" | "d = 1" | "d = 2" | "d = 3" | "d = 4" | "d = 5" | "d = 6" | "d = 7"
    | "d = 8" | "d = 9"
proof -
  from assms have "d = 0 \<or> d = 1 \<or> d = 2 \<or> d = 3 \<or> d = 4 \<or> d = 5 \<or> d = 6 \<or> d = 7
      \<or> d = 8 \<or> d = 9"
    by presburger
  with that show thesis by blast
qed

lemma of_char_digit: "d < 10 \<Longrightarrow> of_char (digit_char d) = 48 + d"
  by (erule digit_cases) (simp_all add: digit_char_def)

lemma digit_char_neq:
  assumes "d < 10"
  shows "digit_char d \<noteq> CHR '':'' \<and> digit_char d \<noteq> CHR ''-''"
  using assms by (rule digit_cases) (simp_all add: digit_char_def)

lemma digit_char_inj:
  assumes "d < 10" and "e < 10" and "digit_char d = digit_char e"
  shows "d = e"
proof -
  have "(48::nat) + d = of_char (digit_char d)"
    using assms(1) by (simp only: of_char_digit)
  also have "\<dots> = of_char (digit_char e)"
    by (simp only: assms(3))
  also have "\<dots> = 48 + e"
    using assms(2) by (simp only: of_char_digit)
  finally show ?thesis by simp
qed

lemma str_nat_digits: "c \<in> set (str_nat n) \<Longrightarrow> c \<noteq> CHR '':'' \<and> c \<noteq> CHR ''-''"
proof (induction n rule: str_nat.induct)
  case (1 n)
  show ?case
  proof (cases "n < 10")
    case True
    with "1.prems" show ?thesis
      by (simp add: str_nat.simps [of n] digit_char_neq)
  next
    case False
    with "1.prems" have "c \<in> set (str_nat (n div 10)) \<or> c = digit_char (n mod 10)"
      by (auto simp: str_nat.simps [of n])
    then show ?thesis
      using "1.IH" [OF False] digit_char_neq [of "n mod 10"] by auto
  qed
qed

lemma str_nat_nonempty: "str_nat n \<noteq> []"
  by (simp add: str_nat.simps [of n])

lemma str_nat_inj: "str_nat n = str_nat m \<Longrightarrow> n = m"
proof (induction n arbitrary: m rule: str_nat.induct)
  case (1 n)
  show ?case
  proof (cases "n < 10")
    case n: True
    show ?thesis
    proof (cases "m < 10")
      case True
      with n "1.prems" show ?thesis
        by (simp add: str_nat.simps [of n] str_nat.simps [of m] digit_char_inj)
    next
      case False
      with n "1.prems" show ?thesis
        using str_nat_nonempty [of "m div 10"]
        by (simp add: str_nat.simps [of n] str_nat.simps [of m])
    qed
  next
    case n: False
    show ?thesis
    proof (cases "m < 10")
      case True
      with n "1.prems" show ?thesis
        using str_nat_nonempty [of "n div 10"]
        by (simp add: str_nat.simps [of n] str_nat.simps [of m])
    next
      case False
      with n "1.prems" have e: "str_nat (n div 10) = str_nat (m div 10)"
        and d: "digit_char (n mod 10) = digit_char (m mod 10)"
        by (simp_all add: str_nat.simps [of n] str_nat.simps [of m])
      from "1.IH" [OF n e] have "n div 10 = m div 10" .
      moreover from d have "n mod 10 = m mod 10"
        by (rule digit_char_inj [rotated 2]) simp_all
      ultimately show ?thesis
        by (metis div_mult_mod_eq)
    qed
  qed
qed

lemma str_int_no_colon: "CHR '':'' \<notin> set (str_int i)"
  using str_nat_digits by (auto simp: str_int_def)

lemma str_nat_hd: "hd (str_nat n) \<noteq> CHR ''-''"
  using str_nat_digits [of "hd (str_nat n)" n] str_nat_nonempty [of n] by simp

lemma str_int_inj: "str_int i = str_int j \<Longrightarrow> i = j"
proof -
  assume a: "str_int i = str_int j"
  have neg: "CHR ''-'' # str_nat a \<noteq> str_nat b" for a b
    using str_nat_hd [of b] by (metis list.sel(1))
  show ?thesis
  proof (cases "i < 0"; cases "j < 0")
    assume "i < 0" "j < 0"
    with a have "nat (- i) = nat (- j)" by (simp add: str_int_def str_nat_inj)
    with \<open>i < 0\<close> \<open>j < 0\<close> show ?thesis by simp
  next
    assume "i < 0" "\<not> j < 0"
    with a neg show ?thesis by (simp add: str_int_def)
  next
    assume "\<not> i < 0" "j < 0"
    with a neg [of "nat (- j)" "nat i"] show ?thesis by (simp add: str_int_def)
  next
    assume "\<not> i < 0" "\<not> j < 0"
    with a have "nat i = nat j" by (simp add: str_int_def str_nat_inj)
    with \<open>\<not> i < 0\<close> \<open>\<not> j < 0\<close> show ?thesis by simp
  qed
qed

lemma split_last_colon:
  assumes "s @ CHR '':'' # t = s' @ CHR '':'' # t'"
    and "CHR '':'' \<notin> set t" and "CHR '':'' \<notin> set t'"
  shows "s = s' \<and> t = t'"
proof -
  have r: "takeWhile (\<lambda>c. c \<noteq> CHR '':'') (rev (u @ CHR '':'' # v)) = rev v"
    if "CHR '':'' \<notin> set v" for u v
  proof -
    have "takeWhile (\<lambda>c. c \<noteq> CHR '':'') (rev v @ CHR '':'' # rev u) =
          rev v @ takeWhile (\<lambda>c. c \<noteq> CHR '':'') (CHR '':'' # rev u)"
      by (rule takeWhile_append2) (use that in auto)
    then show ?thesis by simp
  qed
  from assms(1) have "rev t = rev t'"
    using r [OF assms(2), of s] r [OF assms(3), of s'] by simp
  then have "t = t'" by simp
  with assms(1) show ?thesis by simp
qed

subsection \<open>Ids as a function of the page ids; grouping\<close>

lemma chunk_ids_loop_page_ids:
  "chunk_ids (chunk_ids_loop lastp idx chunks) =
   map Some (page_ids_loop lastp idx (map current_page_id chunks))"
  by (induction chunks arbitrary: lastp idx) (simp_all add: chunk_ids_def Let_def set_id_def)


lemma current_page_id_inj:
  assumes "has_source_page c" and "has_source_page c'"
    and "current_page_id c = current_page_id c'"
  shows "source_page c = source_page c'"
proof -
  from assms(1) obtain s p where c: "source (metadata c) = Some s" "page (metadata c) = Some p"
    by (auto simp: has_source_page_def)
  from assms(2) obtain s' p' where c': "source (metadata c') = Some s'" "page (metadata c') = Some p'"
    by (auto simp: has_source_page_def)
  from assms(3) have "s @ CHR '':'' # str_int p = s' @ CHR '':'' # str_int p'"
    by (simp add: current_page_id_def c c' fmt_source_def fmt_page_def)
  then have "s = s' \<and> str_int p = str_int p'"
    by (rule split_last_colon) (rule str_int_no_colon)+
  then show ?thesis
    by (simp add: source_page_def c c' str_int_inj)
qed


lemma zero_id_mem:
  "p \<in> set zs \<Longrightarrow> lastp \<noteq> Some p \<or> hd zs \<noteq> p \<Longrightarrow>
   (p @ '':'' @ str_nat 0) \<in> set (page_ids_loop lastp idx zs)"
proof (induction zs arbitrary: lastp idx)
  case Nil
  then show ?case by simp
next
  case (Cons z zs)
  show ?case
  proof (cases "z = p")
    case True
    with Cons.prems show ?thesis by (simp add: Let_def)
  next
    case False
    with Cons.prems have "p \<in> set zs" by simp
    moreover from False have "Some z \<noteq> Some p \<or> hd zs \<noteq> p" by simp
    ultimately have "(p @ '':'' @ str_nat 0) \<in> set (page_ids_loop (Some z) (if Some z = lastp then idx + 1 else 0) zs)"
      by (rule Cons.IH)
    then show ?thesis by (simp add: Let_def)
  qed
qed

lemma page_ids_loop_fresh:
  "lastp \<noteq> Some z \<Longrightarrow> page_ids_loop lastp idx (z # zs) = page_ids_loop None 0 (z # zs)"
  by (auto simp: Let_def)

lemma page_ids_loop_run:
  "\<forall>a\<in>set as. a = x \<Longrightarrow>
   \<exists>n. page_ids_loop (Some x) idx (as @ bs) =
        page_ids_loop (Some x) idx as @ page_ids_loop (Some x) n bs"
proof (induction as arbitrary: idx)
  case Nil
  show ?case by (rule exI [of _ idx]) simp
next
  case (Cons a as)
  then have a: "a = x" and as: "\<forall>a\<in>set as. a = x" by simp_all
  from Cons.IH [OF as, of "idx + 1"] obtain n where
    "page_ids_loop (Some x) (idx + 1) (as @ bs) =
     page_ids_loop (Some x) (idx + 1) as @ page_ids_loop (Some x) n bs" ..
  then show ?case using a by (intro exI [of _ n]) (simp add: Let_def)
qed

lemma grouped_run:
  "\<forall>a\<in>set as. a = x \<Longrightarrow> x \<notin> set zs \<Longrightarrow> grouped (as @ zs) = grouped zs"
proof (induction as)
  case Nil
  show ?case by simp
next
  case (Cons a as)
  then have a: "a = x" and as: "\<forall>a\<in>set as. a = x" by simp_all
  have "dropWhile (\<lambda>y. y = x) (as @ zs) = dropWhile (\<lambda>y. y = x) zs"
    using as by (simp add: dropWhile_append2)
  moreover have "set (dropWhile (\<lambda>y. y = x) zs) \<subseteq> set zs"
    by (rule set_dropWhileD [THEN subsetI])
  ultimately show ?case
    using Cons.IH [OF as Cons.prems(2)] Cons.prems(2) a by auto
qed

lemma not_grouped_duplicate:
  "\<not> grouped pids \<Longrightarrow> \<not> distinct (page_ids_loop None 0 pids)"
proof (induction pids rule: length_induct)
  case (1 pids)
  from "1.prems" obtain x xs where pids: "pids = x # xs"
    by (cases pids) auto
  define as where "as = takeWhile (\<lambda>y. y = x) xs"
  define zs where "zs = dropWhile (\<lambda>y. y = x) xs"
  have xs: "xs = as @ zs" by (simp add: as_def zs_def)
  have as: "\<forall>a\<in>set as. a = x"
    unfolding as_def by (auto dest: set_takeWhileD)
  have hd: "zs \<noteq> [] \<Longrightarrow> hd zs \<noteq> x"
    unfolding zs_def using hd_dropWhile [of "\<lambda>y. y = x" xs] by simp
  from page_ids_loop_run [OF as] obtain n where
    run: "page_ids_loop (Some x) 0 (as @ zs) =
          page_ids_loop (Some x) 0 as @ page_ids_loop (Some x) n zs" ..
  have ids: "page_ids_loop None 0 pids =
      (x @ '':'' @ str_nat 0) # page_ids_loop (Some x) 0 as @ page_ids_loop (Some x) n zs"
    by (simp add: pids xs run Let_def del: append_assoc)
  show ?case
  proof (cases "x \<in> set zs")
    case True
    then have "zs \<noteq> []" by auto
    with hd have "Some x \<noteq> Some x \<or> hd zs \<noteq> x" by simp
    with True have "(x @ '':'' @ str_nat 0) \<in> set (page_ids_loop (Some x) n zs)"
      by (rule zero_id_mem)
    then show ?thesis by (simp add: ids)
  next
    case False
    with "1.prems" have "\<not> grouped xs"
      by (simp add: pids zs_def)
    then have ng: "\<not> grouped zs"
      using grouped_run [OF as False] by (simp add: xs)
    then obtain z zs' where zs: "zs = z # zs'" by (cases zs) auto
    with hd have "Some x \<noteq> Some z" by auto
    then have "page_ids_loop (Some x) n zs = page_ids_loop None 0 zs"
      unfolding zs by (rule page_ids_loop_fresh)
    moreover have "length zs < length pids"
      by (simp add: pids xs)
    with "1.IH" ng have "\<not> distinct (page_ids_loop None 0 zs)" by blast
    ultimately show ?thesis by (simp add: ids)
  qed
qed

lemma grouped_map_inj:
  "inj_on f (set xs) \<Longrightarrow> grouped (map f xs) = grouped xs"
proof (induction xs)
  case Nil
  show ?case by simp
next
  case (Cons x xs)
  then have inj: "inj_on f (set xs)" and x: "\<And>y. y \<in> set xs \<Longrightarrow> (f y = f x) = (y = x)"
    by (auto simp: inj_on_def)
  have d: "dropWhile (\<lambda>y. y = f x) (map f xs) = map f (dropWhile (\<lambda>y. y = x) xs)"
    unfolding dropWhile_map comp_def
    by (rule arg_cong [where f = "map f"], rule dropWhile_cong) (simp_all add: x)
  have "(f x \<in> f ` set (dropWhile (\<lambda>y. y = x) xs)) = (x \<in> set (dropWhile (\<lambda>y. y = x) xs))"
  proof
    assume "f x \<in> f ` set (dropWhile (\<lambda>y. y = x) xs)"
    then obtain y where y: "y \<in> set (dropWhile (\<lambda>y. y = x) xs)" and e: "f y = f x"
      by (metis imageE)
    from y have "y \<in> set xs" by (rule set_dropWhileD)
    with e have "y = x" by (simp add: x)
    with y show "x \<in> set (dropWhile (\<lambda>y. y = x) xs)" by simp
  next
    assume "x \<in> set (dropWhile (\<lambda>y. y = x) xs)"
    then show "f x \<in> f ` set (dropWhile (\<lambda>y. y = x) xs)" by (rule imageI)
  qed
  then show ?case
    using Cons.IH [OF inj] by (simp add: d)
qed

subsection \<open>Claims about the identity assigner\<close>

lemma str_nat_small: "str_nat 0 = ''0''" "str_nat 1 = ''1''" "str_nat (Suc 0) = ''1''" "str_nat 2 = ''2''"
  by (simp_all add: str_nat.simps digit_char_def)

lemma str_int_0: "str_int 0 = ''0''"
  by (simp add: str_int_def str_nat_small)



text \<open>
  Claim C8. Two runs of splitting and identity assignment whose chunk sequences agree in
  their (source, page) pairs, in particular two runs over identical content, derive the
  same ids in the same order, hence the same multiset of ids; neither the chunk text nor an
  id left by an earlier run influences the result.
\<close>

theorem chunk_ids_deterministic:
  assumes "map source_page (split_documents text_splitter documents1) =
           map source_page (split_documents text_splitter documents2)"
  shows "chunk_ids (calculate_chunk_ids (split_documents text_splitter documents1)) =
         chunk_ids (calculate_chunk_ids (split_documents text_splitter documents2)) \<and>
         mset (chunk_ids (calculate_chunk_ids (split_documents text_splitter documents1))) =
         mset (chunk_ids (calculate_chunk_ids (split_documents text_splitter documents2)))"
proof -
  have "current_page_id = (\<lambda>(s, p). fmt_source s @ '':'' @ fmt_page p) \<circ> source_page"
    by (rule ext) (simp add: current_page_id_def source_page_def)
  then have "map current_page_id (split_documents text_splitter documents1) =
             map current_page_id (split_documents text_splitter documents2)"
    using assms by (metis map_map)
  then have "chunk_ids (calculate_chunk_ids (split_documents text_splitter documents1)) =
             chunk_ids (calculate_chunk_ids (split_documents text_splitter documents2))"
    by (simp only: calculate_chunk_ids_def chunk_ids_loop_page_ids)
  then show ?thesis by simp
qed

theorem chunk_ids_deterministic_witness:
  "map source_page (split_documents (\<lambda>ds. ds) example_chunks) =
   map source_page (split_documents (\<lambda>ds. ds) (calculate_chunk_ids example_chunks)) \<and>
   chunk_ids (calculate_chunk_ids (split_documents (\<lambda>ds. ds) example_chunks)) =
   chunk_ids (calculate_chunk_ids (split_documents (\<lambda>ds. ds) (calculate_chunk_ids example_chunks)))"
proof -
  have h: "map source_page (split_documents (\<lambda>ds. ds) example_chunks) =
     map source_page (split_documents (\<lambda>ds. ds) (calculate_chunk_ids example_chunks))"
    by (simp add: split_documents_def example_chunks_def calculate_chunk_ids_def mk_chunk_def
        source_page_def set_id_def Let_def)
  from chunk_ids_deterministic [OF h] h show ?thesis by simp
qed

text \<open>
  Claim C10. When a (source, page) pair reappears after chunks of another pair, two distinct
  chunks receive the same id: the first and the third chunk of \<open>interleaved_chunks\<close>.
  Ids can only be unique when the chunks arrive grouped: for chunks carrying both keys,
  distinct ids imply that the (source, page) sequence is grouped.
\<close>

theorem interleaved_pages_collide:
  "\<not> grouped (map source_page interleaved_chunks) \<and>
   interleaved_chunks ! 0 \<noteq> interleaved_chunks ! 2 \<and>
   chunk_ids (calculate_chunk_ids interleaved_chunks) ! 0 =
     chunk_ids (calculate_chunk_ids interleaved_chunks) ! 2 \<and>
   (\<forall>chunks. (\<forall>c\<in>set chunks. has_source_page c) \<and>
       distinct (chunk_ids (calculate_chunk_ids chunks)) \<longrightarrow>
       grouped (map source_page chunks))"
proof (intro conjI allI impI)
  show "\<not> grouped (map source_page interleaved_chunks)"
    by (simp add: interleaved_chunks_def source_page_def)
next
  show "interleaved_chunks ! 0 \<noteq> interleaved_chunks ! 2"
    by (simp add: interleaved_chunks_def)
next
  show "chunk_ids (calculate_chunk_ids interleaved_chunks) ! 0 =
     chunk_ids (calculate_chunk_ids interleaved_chunks) ! 2"
    by (simp add: interleaved_chunks_def calculate_chunk_ids_def chunk_ids_def Let_def
        set_id_def current_page_id_def fmt_source_def fmt_page_def)
next
  fix chunks
  assume a: "(\<forall>c\<in>set chunks. has_source_page c) \<and> distinct (chunk_ids (calculate_chunk_ids chunks))"
  then have "distinct (page_ids_loop None 0 (map current_page_id chunks))"
    by (simp add: calculate_chunk_ids_def chunk_ids_loop_page_ids distinct_map)
  then have g: "grouped (map current_page_id chunks)"
    using not_grouped_duplicate by blast
  define f where "f = (\<lambda>(s :: string option, p :: int option). fmt_source s @ '':'' @ fmt_page p)"
  have m: "map f (map source_page chunks) = map current_page_id chunks"
    by (simp add: f_def source_page_def current_page_id_def)
  have "inj_on f (set (map source_page chunks))"
  proof (rule inj_onI)
    fix x y
    assume x: "x \<in> set (map source_page chunks)" and y: "y \<in> set (map source_page chunks)"
      and e: "f x = f y"
    from x obtain c where c: "c \<in> set chunks" "x = source_page c" by auto
    from y obtain c' where c': "c' \<in> set chunks" "y = source_page c'" by auto
    from e have "current_page_id c = current_page_id c'"
      by (simp add: f_def c c' source_page_def current_page_id_def)
    with a c c' show "x = y"
      by (simp add: current_page_id_inj)
  qed
  then have "grouped (map f (map source_page chunks)) = grouped (map source_page chunks)"
    by (rule grouped_map_inj)
  with g show "grouped (map source_page chunks)"
    by (simp only: m)
qed

theorem interleaved_pages_collide_witness:
  "list_all has_source_page example_chunks \<and>
   distinct (chunk_ids (calculate_chunk_ids example_chunks)) \<and>
   grouped (map source_page example_chunks)"
proof -
  have p: "\<forall>c\<in>set example_chunks. has_source_page c"
    by (simp add: example_chunks_def mk_chunk_def has_source_page_def)
  have d: "distinct (chunk_ids (calculate_chunk_ids example_chunks))"
    by (simp add: example_chunks_def mk_chunk_def calculate_chunk_ids_def chunk_ids_def Let_def
        set_id_def current_page_id_def fmt_source_def fmt_page_def str_int_0 str_nat_small)
  from interleaved_pages_collide p d have "grouped (map source_page example_chunks)"
    by blast
  with p d show ?thesis by (simp add: list_all_iff)
qed

section \<open>Properties of the index writer and the synchronizer\<close>

subsection \<open>The batching loop\<close>

lemma ceil_div_50: "nat \<lceil>real n / 50\<rceil> = (n + 49) div 50"
proof -
  have "\<lceil>real n / 50\<rceil> = int ((n + 49) div 50)"
  proof (rule ceiling_unique)
    have q: "(n + 49) div 50 * 50 + (n + 49) mod 50 = n + 49"
      by (rule div_mult_mod_eq)
    have r: "(n + 49) mod 50 < 50" by simp
    show "real n / 50 \<le> of_int (int ((n + 49) div 50))"
    proof -
      have "n \<le> ((n + 49) div 50) * 50" using q r by linarith
      then have "real n \<le> real (((n + 49) div 50) * 50)" by (simp only: of_nat_le_iff)
      then show ?thesis by simp
    qed
    show "of_int (int ((n + 49) div 50)) - 1 < real n / 50"
    proof -
      have "((n + 49) div 50) * 50 < n + 50" using q by linarith
      then have "real (((n + 49) div 50) * 50) < real (n + 50)" by (simp only: of_nat_less_iff)
      then show ?thesis by simp
    qed
  qed
  then show ?thesis by simp
qed

lemma batch_loop_concat: "concat (batch_loop i xs) = drop i xs"
proof (induction i xs rule: batch_loop.induct)
  case (1 i xs)
  show ?case
  proof (cases "i < length xs")
    case True
    have "concat (batch_loop i xs) = take BATCH_SIZE (drop i xs) @ drop (i + BATCH_SIZE) xs"
      using True "1.IH" by (simp add: batch_loop.simps [of i xs])
    also have "\<dots> = take BATCH_SIZE (drop i xs) @ drop BATCH_SIZE (drop i xs)"
      by (simp add: add.commute)
    finally show ?thesis by (simp only: append_take_drop_id)
  next
    case False
    then show ?thesis by (simp add: batch_loop.simps [of i xs])
  qed
qed

lemma batch_loop_length: "length (batch_loop i xs) = (length xs - i + 49) div 50"
proof (induction i xs rule: batch_loop.induct)
  case (1 i xs)
  show ?case
  proof (cases "i < length xs")
    case True
    then have "length (batch_loop i xs) = Suc ((length xs - (i + 50) + 49) div 50)"
      using "1.IH" by (simp add: batch_loop.simps [of i xs] BATCH_SIZE_def)
    also have "\<dots> = (length xs - i + 49) div 50"
    proof (cases "i + 50 \<le> length xs")
      case True
      then have "length xs - i + 49 = (length xs - (i + 50) + 49) + 50" by simp
      then show ?thesis by (simp only: div_add_self2)
    next
      case False
      with \<open>i < length xs\<close> have "length xs - (i + 50) = 0"
        and "50 \<le> length xs - i + 49" and "length xs - i + 49 < 100" by simp_all
      then show ?thesis by (simp add: div_nat_eqI)
    qed
    finally show ?thesis .
  next
    case False
    then show ?thesis by (simp add: batch_loop.simps [of i xs])
  qed
qed

lemma batch_loop_bounds:
  "b \<in> set (batch_loop i xs) \<Longrightarrow> b \<noteq> [] \<and> length b \<le> BATCH_SIZE"
proof (induction i xs rule: batch_loop.induct)
  case (1 i xs)
  show ?case
  proof (cases "i < length xs")
    case True
    with "1.prems" have "b = take BATCH_SIZE (drop i xs) \<or> b \<in> set (batch_loop (i + BATCH_SIZE) xs)"
      by (simp add: batch_loop.simps [of i xs])
    then show ?thesis
    proof
      assume "b = take BATCH_SIZE (drop i xs)"
      with True show ?thesis by (simp add: BATCH_SIZE_def)
    next
      assume "b \<in> set (batch_loop (i + BATCH_SIZE) xs)"
      with True show ?thesis by (rule "1.IH")
    qed
  next
    case False
    with "1.prems" show ?thesis by (simp add: batch_loop.simps [of i xs])
  qed
qed

lemma batch_loop_subset: "b \<in> set (batch_loop i xs) \<Longrightarrow> set b \<subseteq> set xs"
proof -
  assume "b \<in> set (batch_loop i xs)"
  then have "set b \<subseteq> set (concat (batch_loop i xs))" by auto
  also have "\<dots> \<subseteq> set xs" by (simp add: batch_loop_concat set_drop_subset)
  finally show ?thesis .
qed

subsection \<open>The synchronizer on a well-formed index\<close>

lemma collect_Inr_iff:
  fixes f :: "'a \<Rightarrow> error + 'b"
  shows "(collect f xs = Inr ys) = (map f xs = map Inr ys)"
proof (induction xs arbitrary: ys)
  case Nil
  show ?case by auto
next
  case (Cons x xs)
  show ?case
  proof (cases "f x")
    case (Inl e)
    then show ?thesis by (cases ys) auto
  next
    case (Inr y)
    show ?thesis
    proof (cases "collect f xs")
      case (Inl e)
      with Cons.IH have "\<And>zs. map f xs \<noteq> map Inr zs" by simp
      with Inl Inr show ?thesis by (cases ys) auto
    next
      case r: (Inr zs)
      with Cons.IH [of zs] have m: "map f xs = map Inr zs" by simp
      have "inj (Inr :: 'b \<Rightarrow> error + 'b)" by (simp add: inj_on_def)
      then have "(map (Inr :: 'b \<Rightarrow> error + 'b) zs = map Inr ws) = (zs = ws)" for ws
        by (simp add: inj_map_eq_map)
      with Inr r m show ?thesis by (cases ys) auto
    qed
  qed
qed

lemma wf_index_record:
  assumes "wf_index db" and "r \<in> set db"
  shows "id_md (rec_metadata r) = Some (rec_id r)" and "source (rec_metadata r) = Some (src_of r)"
  using assms by (auto simp: wf_index_def list_all_iff src_of_def)

lemma wf_index_sources:
  assumes "wf_index db"
  shows "collect metadata_source (db_get_metadatas db) = Inr (map src_of db)"
proof -
  have "map metadata_source (map rec_metadata db) = map Inr (map src_of db)"
    using wf_index_record(2) [OF assms] by (simp add: metadata_source_def)
  then show ?thesis by (simp add: collect_Inr_iff db_get_metadatas_def)
qed

lemma wf_index_removed_ids:
  assumes "wf_index db"
  shows "removed_ids_of removed (db_get_metadatas db) =
         Inr (map rec_id (filter (\<lambda>r. src_of r \<in> set removed) db))"
proof -
  have f: "filter (\<lambda>doc. source doc \<in> Some ` set removed) (map rec_metadata db) =
        map rec_metadata (filter (\<lambda>r. src_of r \<in> set removed) db)"
    unfolding filter_map comp_def
    by (rule arg_cong [where f = "map rec_metadata"], rule filter_cong)
       (auto simp: wf_index_record(2) [OF assms])
  have "map metadata_id (map rec_metadata (filter (\<lambda>r. src_of r \<in> set removed) db)) =
        map Inr (map rec_id (filter (\<lambda>r. src_of r \<in> set removed) db))"
    using wf_index_record(1) [OF assms] by (simp add: metadata_id_def)
  then show ?thesis
    by (simp only: removed_ids_of_def db_get_metadatas_def f collect_Inr_iff)
qed

lemma db_delete_removed:
  assumes "distinct (map rec_id db)"
  shows "db_delete (map rec_id (filter P db)) db = filter (\<lambda>r. \<not> P r) db"
proof -
  have "(rec_id r \<notin> set (map rec_id (filter P db))) = (\<not> P r)" if "r \<in> set db" for r
  proof
    assume "rec_id r \<notin> set (map rec_id (filter P db))"
    with that show "\<not> P r" by auto
  next
    assume n: "\<not> P r"
    show "rec_id r \<notin> set (map rec_id (filter P db))"
    proof
      assume "rec_id r \<in> set (map rec_id (filter P db))"
      then obtain r' where r': "r' \<in> set db" "P r'" "rec_id r' = rec_id r" by auto
      from assms have "inj_on rec_id (set db)" by (simp add: distinct_map)
      with r' that have "r' = r" by (auto dest: inj_onD)
      with r' n show False by simp
    qed
  qed
  then show ?thesis
    unfolding db_delete_def by (intro filter_cong refl)
qed

lemma detect_renamed_files_keys:
  "(old, new) \<in> set (detect_renamed_files existing current_sources) \<Longrightarrow>
   old \<in> set existing \<and> old \<notin> set current_sources"
  by (induction existing) (auto split: if_splits option.splits)

lemma update_loop_noop:
  "\<forall>md\<in>set mds. \<exists>s. source md = Some s \<and> s \<noteq> old_source \<Longrightarrow>
   update_loop old_source new_source mds db = Inr db"
  by (induction mds) (auto simp: metadata_source_def)

lemma update_renamed_noop:
  assumes "\<forall>r\<in>set db. \<exists>s. source (rec_metadata r) = Some s \<and> s \<in> set current_sources"
    and "\<forall>(old, new)\<in>set renamed. old \<notin> set current_sources"
  shows "update_renamed renamed db = Inr db"
  using assms(2)
proof (induction renamed)
  case Nil
  show ?case by simp
next
  case (Cons p renamed)
  obtain old new where p: "p = (old, new)" by (cases p)
  with Cons.prems have old: "old \<notin> set current_sources" by simp
  have "\<forall>md\<in>set (db_get_metadatas db). \<exists>s. source md = Some s \<and> s \<noteq> old"
    using assms(1) old by (auto simp: db_get_metadatas_def)
  then have "update_source_in_db db old new = Inr db"
    unfolding update_source_in_db_def by (rule update_loop_noop)
  with Cons show ?case by (simp add: p)
qed

lemma sync_with_directory_filter:
  assumes "wf_index db"
  shows "sync_with_directory db current_sources =
         Inr (filter (\<lambda>r. src_of r \<in> set current_sources) db)"
proof -
  define existing where "existing = remdups (map src_of db)"
  define removed where "removed = filter (\<lambda>s. s \<notin> set current_sources) existing"
  define db' where "db' = filter (\<lambda>r. src_of r \<in> set current_sources) db"
  have rm: "set removed = src_of ` set db - set current_sources"
    by (auto simp: removed_def existing_def)
  have del: "(if removed \<noteq> []
          then (case removed_ids_of removed (db_get_metadatas db) of
                  Inl e \<Rightarrow> Inl e
                | Inr removed_ids \<Rightarrow> Inr (db_delete removed_ids db))
          else Inr db) = Inr db'"
  proof (cases "removed = []")
    case True
    with rm have "\<forall>r\<in>set db. src_of r \<in> set current_sources" by auto
    then have "db' = db" by (simp add: db'_def)
    with True show ?thesis by simp
  next
    case False
    from assms have d: "distinct (map rec_id db)" by (simp add: wf_index_def)
    have "filter (\<lambda>r. \<not> src_of r \<in> set removed) db = db'"
      unfolding db'_def by (rule filter_cong) (auto simp: rm)
    with False show ?thesis
      by (simp add: wf_index_removed_ids [OF assms] db_delete_removed [OF d])
  qed
  have keep: "\<forall>r\<in>set db'. \<exists>s. source (rec_metadata r) = Some s \<and> s \<in> set current_sources"
    using wf_index_record(2) [OF assms] by (auto simp: db'_def)
  have "\<forall>(old, new)\<in>set (detect_renamed_files existing current_sources).
          old \<notin> set current_sources"
    using detect_renamed_files_keys by blast
  with keep have "update_renamed (detect_renamed_files existing current_sources) db' = Inr db'"
    by (rule update_renamed_noop)
  then have ren: "(if detect_renamed_files existing current_sources \<noteq> []
          then update_renamed (detect_renamed_files existing current_sources) db'
          else Inr db') = Inr db'"
    by simp
  show ?thesis
    unfolding sync_with_directory_def Let_def wf_index_sources [OF assms]
    by (simp only: sum.case existing_def [symmetric] removed_def [symmetric] del ren
        db'_def [symmetric])
qed

subsection \<open>The write calls of a pass\<close>

lemma chunk_ids_loop_has_id: "c \<in> set (chunk_ids_loop lastp idx chunks) \<Longrightarrow> has_id c"
  by (induction chunks arbitrary: lastp idx) (auto simp: Let_def set_id_def has_id_def)

lemma calculate_chunk_ids_has_id: "c \<in> set (calculate_chunk_ids chunks) \<Longrightarrow> has_id c"
  unfolding calculate_chunk_ids_def by (rule chunk_ids_loop_has_id)

lemma chunk_ids_loop_source:
  "map (\<lambda>c. source (metadata c)) (chunk_ids_loop lastp idx chunks) =
   map (\<lambda>c. source (metadata c)) chunks"
  by (induction chunks arbitrary: lastp idx) (auto simp: Let_def set_id_def)

lemma new_chunks_of_filter:
  "\<forall>c\<in>set cs. has_id c \<Longrightarrow>
   new_chunks_of existing_ids cs =
     Inr (filter (\<lambda>c. id_md (metadata c) \<notin> Some ` set existing_ids) cs)"
  by (induction cs) (auto simp: has_id_def metadata_id_def)

lemma collect_ids:
  assumes "\<forall>c\<in>set batch. has_id c"
  shows "\<exists>ids. collect (\<lambda>chunk. metadata_id (metadata chunk)) batch = Inr ids \<and>
           map Some ids = chunk_ids batch"
proof -
  define ids where "ids = map (\<lambda>c. case id_md (metadata c) of Some i \<Rightarrow> i | None \<Rightarrow> []) batch"
  have "map (\<lambda>chunk. metadata_id (metadata chunk)) batch = map Inr ids"
    using assms by (auto simp: ids_def metadata_id_def has_id_def)
  moreover have "map Some ids = chunk_ids batch"
    using assms by (auto simp: ids_def chunk_ids_def has_id_def)
  ultimately show ?thesis by (simp add: collect_Inr_iff)
qed

lemma upsert_ids: "rec_id ` set (upsert r db) = insert (rec_id r) (rec_id ` set db)"
  by (induction db) auto

lemma fold_upsert_ids:
  "rec_id ` set (fold upsert rs db) = rec_id ` set rs \<union> rec_id ` set db"
proof (induction rs arbitrary: db)
  case Nil
  show ?case by simp
next
  case (Cons r rs)
  have "rec_id ` set (fold upsert (r # rs) db) = rec_id ` set rs \<union> rec_id ` set (upsert r db)"
    using Cons.IH [of "upsert r db"] by simp
  also have "\<dots> = rec_id ` set (r # rs) \<union> rec_id ` set db"
    unfolding upsert_ids by auto
  finally show ?case .
qed

lemma db_add_documents_ids:
  assumes "map Some ids = chunk_ids batch"
  shows "Some ` set (db_get_ids (db_add_documents batch ids db)) =
         set (chunk_ids batch) \<union> Some ` set (db_get_ids db)"
proof -
  from assms have l: "length ids = length batch"
    by (metis length_map chunk_ids_def)
  define rs where "rs = map (\<lambda>(d, i). \<lparr>rec_id = i, rec_metadata = metadata d,
      rec_content = page_content d\<rparr>) (zip batch ids)"
  have "map rec_id rs = map snd (zip batch ids)"
    by (simp add: rs_def case_prod_unfold)
  also have "\<dots> = ids" using l by simp
  finally have "rec_id ` set rs = set ids" by (metis set_map)
  then have "set (db_get_ids (db_add_documents batch ids db)) = set ids \<union> set (db_get_ids db)"
    unfolding db_get_ids_def db_add_documents_def rs_def [symmetric]
    by (simp only: set_map fold_upsert_ids)
  moreover have "Some ` set ids = set (chunk_ids batch)"
    using assms by (metis set_map)
  ultimately show ?thesis by (simp only: image_Un)
qed

lemma write_batches_calls:
  assumes "\<forall>batch\<in>set batches. \<forall>c\<in>set batch. has_id c"
  shows "\<exists>db' calls. write_batches batches db = Inr (db', calls) \<and>
           map fst calls = batches \<and>
           (\<forall>(batch, ids)\<in>set calls. map Some ids = chunk_ids batch) \<and>
           Some ` set (db_get_ids db') =
             set (chunk_ids (concat batches)) \<union> Some ` set (db_get_ids db)"
  using assms
proof (induction batches arbitrary: db)
  case Nil
  show ?case by (simp add: chunk_ids_def)
next
  case (Cons batch batches)
  then have "\<forall>c\<in>set batch. has_id c" by simp
  from collect_ids [OF this] obtain ids where
    ids: "collect (\<lambda>chunk. metadata_id (metadata chunk)) batch = Inr ids"
      "map Some ids = chunk_ids batch" by blast
  from Cons.prems have "\<forall>batch\<in>set batches. \<forall>c\<in>set batch. has_id c" by simp
  from Cons.IH [OF this, of "db_add_documents batch ids db"] obtain db' calls where
    w: "write_batches batches (db_add_documents batch ids db) = Inr (db', calls)"
      "map fst calls = batches"
      "\<forall>(batch, ids)\<in>set calls. map Some ids = chunk_ids batch"
      "Some ` set (db_get_ids db') =
         set (chunk_ids (concat batches)) \<union> Some ` set (db_get_ids (db_add_documents batch ids db))"
    by blast
  have "write_batches (batch # batches) db = Inr (db', (batch, ids) # calls)"
    by (simp add: ids(1) w(1))
  moreover have "map fst ((batch, ids) # calls) = batch # batches"
    by (simp add: w(2))
  moreover have "\<forall>(batch, ids)\<in>set ((batch, ids) # calls). map Some ids = chunk_ids batch"
    using ids(2) w(3) by simp
  moreover have "Some ` set (db_get_ids db') =
      set (chunk_ids (concat (batch # batches))) \<union> Some ` set (db_get_ids db)"
  proof -
    have "chunk_ids (concat (batch # batches)) = chunk_ids batch @ chunk_ids (concat batches)"
      by (simp add: chunk_ids_def)
    then show ?thesis
      unfolding w(4) db_add_documents_ids [OF ids(2)] by (simp add: Un_ac)
  qed
  ultimately show ?case by (intro exI conjI)
qed

lemma new_chunks_of_new_chunks:
  "new_chunks_of (db_get_ids db) (calculate_chunk_ids chunks) = Inr (new_chunks chunks db)"
  unfolding new_chunks_def
  by (rule new_chunks_of_filter) (simp add: calculate_chunk_ids_has_id)

lemma new_chunks_has_id: "c \<in> set (new_chunks chunks db) \<Longrightarrow> has_id c"
  by (auto simp: new_chunks_def intro: calculate_chunk_ids_has_id)

lemma add_to_chroma_result:
  "\<exists>db' calls. add_to_chroma chunks db = Inr (db', calls) \<and>
     map fst calls = batch_loop 0 (new_chunks chunks db) \<and>
     (\<forall>(batch, ids)\<in>set calls. map Some ids = chunk_ids batch) \<and>
     Some ` set (db_get_ids db') =
       set (chunk_ids (new_chunks chunks db)) \<union> Some ` set (db_get_ids db)"
proof (cases "new_chunks chunks db = []")
  case True
  then have "add_to_chroma chunks db = Inr (db, [])"
    by (simp add: add_to_chroma_def new_chunks_of_new_chunks)
  with True show ?thesis
    by (simp add: batch_loop.simps [of 0 "[]"] chunk_ids_def)
next
  case False
  have "\<forall>batch\<in>set (batch_loop 0 (new_chunks chunks db)). \<forall>c\<in>set batch. has_id c"
    using batch_loop_subset new_chunks_has_id by blast
  from write_batches_calls [OF this, of db] obtain db' calls where
    w: "write_batches (batch_loop 0 (new_chunks chunks db)) db = Inr (db', calls)"
      "map fst calls = batch_loop 0 (new_chunks chunks db)"
      "\<forall>(batch, ids)\<in>set calls. map Some ids = chunk_ids batch"
      "Some ` set (db_get_ids db') =
         set (chunk_ids (concat (batch_loop 0 (new_chunks chunks db)))) \<union> Some ` set (db_get_ids db)"
    by blast
  have "add_to_chroma chunks db = Inr (db', calls)"
    using False by (simp add: add_to_chroma_def new_chunks_of_new_chunks w(1))
  moreover have "concat (batch_loop 0 (new_chunks chunks db)) = new_chunks chunks db"
    by (simp add: batch_loop_concat)
  ultimately show ?thesis
    using w(2,3,4) by (intro exI conjI) simp_all
qed

text \<open>
  Claim C7. For every chunk list and index, the ingestion step returns normally and issues
  exactly \<open>ceil(n / 50)\<close> write calls, \<open>n\<close> the number of new chunks; every call carries
  between 1 and 50 chunks together with their ids, and the batches concatenated are the new
  chunks in order. In particular this holds for \<open>n > 50\<close>.
\<close>

theorem add_to_chroma_batches:
  "\<exists>db' calls.
     add_to_chroma chunks db = Inr (db', calls) \<and>
     length calls = nat \<lceil>real (length (new_chunks chunks db)) / 50\<rceil> \<and>
     (\<forall>(batch, ids)\<in>set calls.
        batch \<noteq> [] \<and> length batch \<le> 50 \<and> map Some ids = chunk_ids batch) \<and>
     concat (map fst calls) = new_chunks chunks db"
proof -
  from add_to_chroma_result [of chunks db] obtain db' calls where
    r: "add_to_chroma chunks db = Inr (db', calls)"
      "map fst calls = batch_loop 0 (new_chunks chunks db)"
      "\<forall>(batch, ids)\<in>set calls. map Some ids = chunk_ids batch"
    by blast
  have "length calls = length (map fst calls)" by simp
  also have "\<dots> = (length (new_chunks chunks db) + 49) div 50"
    by (simp only: r(2) batch_loop_length diff_zero)
  finally have n: "length calls = nat \<lceil>real (length (new_chunks chunks db)) / 50\<rceil>"
    by (simp only: ceil_div_50)
  have b: "batch \<noteq> [] \<and> length batch \<le> 50 \<and> map Some ids = chunk_ids batch"
    if "(batch, ids) \<in> set calls" for batch ids
  proof -
    from that have "batch \<in> set (map fst calls)" by force
    then have "batch \<in> set (batch_loop 0 (new_chunks chunks db))" by (simp only: r(2))
    then have "batch \<noteq> [] \<and> length batch \<le> BATCH_SIZE" by (rule batch_loop_bounds)
    moreover from r(3) that have "map Some ids = chunk_ids batch" by blast
    ultimately show ?thesis by (simp add: BATCH_SIZE_def)
  qed
  have c: "concat (map fst calls) = new_chunks chunks db"
    by (simp only: r(2) batch_loop_concat drop_0)
  from r(1) n b c show ?thesis by blast
qed

theorem add_to_chroma_batches_witness:
  "\<exists>db' calls. add_to_chroma (replicate 51 (mk_chunk ''a.pdf'' 0 ''text'')) [] = Inr (db', calls) \<and>
     length calls = 2 \<and> length (concat (map fst calls)) = 51"
proof -
  let ?chunks = "replicate 51 (mk_chunk ''a.pdf'' 0 ''text'')"
  have l: "length (new_chunks ?chunks []) = 51"
    by (simp add: new_chunks_def db_get_ids_def calculate_chunk_ids_def)
  from add_to_chroma_batches [of ?chunks "[]"] obtain db' calls where
    "add_to_chroma ?chunks [] = Inr (db', calls)"
    "length calls = nat \<lceil>real (length (new_chunks ?chunks [])) / 50\<rceil>"
    "concat (map fst calls) = new_chunks ?chunks []"
    by blast
  then have "add_to_chroma ?chunks [] = Inr (db', calls) \<and> length calls = 2 \<and>
      length (concat (map fst calls)) = 51"
    by (simp add: l ceil_div_50)
  then show ?thesis by blast
qed

subsection \<open>Deletion and renaming\<close>

lemma existing_sources_iff:
  "(s \<in> existing_sources db) = (\<exists>r\<in>set db. source (rec_metadata r) = Some s)"
  by (induction db) (auto simp: existing_sources_def split: option.splits)

text \<open>
  Claim C5. On a well-formed index a synchronization pass returns the index without the
  records whose source is in \<open>existing_sources - current_sources\<close>; every other record
  stays, unchanged and in place.
\<close>

theorem sync_deletes_removed_sources:
  assumes "wf_index db"
  shows "sync_with_directory db current_sources =
         Inr (filter (\<lambda>r. \<not> source_removed db current_sources r) db)"
proof -
  have "(src_of r \<in> set current_sources) = (\<not> source_removed db current_sources r)"
    if "r \<in> set db" for r
  proof -
    from assms that have s: "source (rec_metadata r) = Some (src_of r)"
      by (rule wf_index_record)
    with that have "src_of r \<in> existing_sources db"
      by (auto simp: existing_sources_iff)
    with s show ?thesis by (simp add: source_removed_def)
  qed
  then have "filter (\<lambda>r. src_of r \<in> set current_sources) db =
             filter (\<lambda>r. \<not> source_removed db current_sources r) db"
    by (intro filter_cong refl)
  with sync_with_directory_filter [OF assms, of current_sources] show ?thesis by simp
qed

lemma basename_examples:
  "basename ''/old/a.pdf'' = ''a.pdf''" "basename ''/new/a.pdf'' = ''a.pdf''"
  "basename ''/data/a.pdf'' = ''a.pdf''" "basename ''/data/b.pdf'' = ''b.pdf''"
  "basename ''/data/c.pdf'' = ''c.pdf''"
  by (simp_all add: basename_def)

theorem sync_deletes_removed_sources_witness:
  "wf_index example_index \<and>
   sync_with_directory example_index [''/data/b.pdf'', ''/data/c.pdf''] =
     Inr [mk_record ''/data/b.pdf'' ''/data/b.pdf:0:0'']"
proof -
  have w: "wf_index example_index"
    by (simp add: wf_index_def example_index_def mk_record_def)
  have "filter (\<lambda>r. \<not> source_removed example_index [''/data/b.pdf'', ''/data/c.pdf''] r)
          example_index = [mk_record ''/data/b.pdf'' ''/data/b.pdf:0:0'']"
    by (simp add: source_removed_def existing_sources_def example_index_def
        mk_record_def)
  with sync_deletes_removed_sources [OF w, of "[''/data/b.pdf'', ''/data/c.pdf'']"] w
  show ?thesis by simp
qed

text \<open>
  Claim C1 fails on the code. A file with a unique basename is moved from \<open>/old/a.pdf\<close> to
  \<open>/new/a.pdf\<close>: \<open>detect_renamed_files\<close> pairs the two paths, but the pass has deleted the
  records of \<open>/old/a.pdf\<close> before, so \<open>update_source_in_db\<close> finds nothing to rewrite and
  the index ends empty. A file renamed inside the data directory, \<open>a.pdf\<close> to \<open>c.pdf\<close>, is
  not detected as renamed at all (the basenames differ) and its records are deleted too.
\<close>

theorem rename_deletes_records:
  "wf_index moved_index \<and>
   detect_renamed_files [''/old/a.pdf''] [''/new/a.pdf''] = [(''/old/a.pdf'', ''/new/a.pdf'')] \<and>
   sync_with_directory moved_index [''/new/a.pdf''] = Inr [] \<and>
   wf_index example_index \<and>
   detect_renamed_files [''/data/a.pdf'', ''/data/b.pdf''] [''/data/c.pdf'', ''/data/b.pdf''] = [] \<and>
   sync_with_directory example_index [''/data/c.pdf'', ''/data/b.pdf''] =
     Inr [mk_record ''/data/b.pdf'' ''/data/b.pdf:0:0'']"
proof (intro conjI)
  show "wf_index moved_index"
    by (simp add: wf_index_def moved_index_def mk_record_def)
  show "detect_renamed_files [''/old/a.pdf''] [''/new/a.pdf''] = [(''/old/a.pdf'', ''/new/a.pdf'')]"
    by (simp add: basename_examples)
  show "sync_with_directory moved_index [''/new/a.pdf''] = Inr []"
    by (simp add: sync_with_directory_def moved_index_def mk_record_def db_get_metadatas_def
        metadata_source_def metadata_id_def removed_ids_of_def db_delete_def basename_examples
        update_source_in_db_def)
  show "wf_index example_index"
    by (simp add: wf_index_def example_index_def mk_record_def)
  show "detect_renamed_files [''/data/a.pdf'', ''/data/b.pdf''] [''/data/c.pdf'', ''/data/b.pdf''] = []"
    by (simp add: basename_examples)
  show "sync_with_directory example_index [''/data/c.pdf'', ''/data/b.pdf''] =
     Inr [mk_record ''/data/b.pdf'' ''/data/b.pdf:0:0'']"
    by (simp add: sync_with_directory_def example_index_def mk_record_def db_get_metadatas_def
        metadata_source_def metadata_id_def removed_ids_of_def db_delete_def basename_examples
        update_source_in_db_def)
qed

subsection \<open>Idempotence of ingestion\<close>

lemma upsert_map_ids:
  "map rec_id (upsert r db) =
     (if rec_id r \<in> rec_id ` set db then map rec_id db else map rec_id db @ [rec_id r])"
  by (induction db) auto

lemma upsert_set: "x \<in> set (upsert r db) \<Longrightarrow> x = r \<or> x \<in> set db"
  by (induction db) (auto split: if_splits)

lemma synced_index_upsert:
  assumes "synced_index cur db" and "good_record cur r"
  shows "synced_index cur (upsert r db)"
proof -
  from assms(1) have "distinct (map rec_id (upsert r db))"
    by (simp add: synced_index_def upsert_map_ids)
  moreover have "\<forall>x\<in>set (upsert r db). good_record cur x"
    using assms upsert_set [of _ r db] by (auto simp: synced_index_def list_all_iff)
  ultimately show ?thesis by (simp add: synced_index_def list_all_iff)
qed

lemma synced_index_fold:
  "synced_index cur db \<Longrightarrow> \<forall>r\<in>set rs. good_record cur r \<Longrightarrow>
   synced_index cur (fold upsert rs db)"
  by (induction rs arbitrary: db) (simp_all add: synced_index_upsert)

lemma collect_ids_eq:
  assumes "collect (\<lambda>chunk. metadata_id (metadata chunk)) batch = Inr ids"
  shows "map Some ids = chunk_ids batch"
proof -
  from assms have m: "map (\<lambda>chunk. metadata_id (metadata chunk)) batch = map Inr ids"
    by (simp add: collect_Inr_iff)
  then have l: "length batch = length ids" by (metis length_map)
  show ?thesis
  proof (rule nth_equalityI)
    show "length (map Some ids) = length (chunk_ids batch)"
      using l by (simp add: chunk_ids_def)
  next
    fix n assume "n < length (map Some ids)"
    then have n: "n < length ids" "n < length batch" using l by simp_all
    from m have "map (\<lambda>chunk. metadata_id (metadata chunk)) batch ! n = map Inr ids ! n"
      by simp
    with n have "metadata_id (metadata (batch ! n)) = Inr (ids ! n)" by simp
    then have "id_md (metadata (batch ! n)) = Some (ids ! n)"
      by (simp add: metadata_id_def split: option.splits)
    with n show "map Some ids ! n = chunk_ids batch ! n"
      by (simp add: chunk_ids_def)
  qed
qed

lemma synced_index_add_documents:
  assumes "synced_index cur db" and "map Some ids = chunk_ids batch"
    and "\<forall>c\<in>set batch. \<exists>s\<in>set cur. source (metadata c) = Some s"
  shows "synced_index cur (db_add_documents batch ids db)"
  unfolding db_add_documents_def
proof (rule synced_index_fold [OF assms(1)], rule ballI)
  fix r
  assume "r \<in> set (map (\<lambda>(d, i). \<lparr>rec_id = i, rec_metadata = metadata d,
      rec_content = page_content d\<rparr>) (zip batch ids))"
  then obtain d i where di: "(d, i) \<in> set (zip batch ids)"
    and r: "r = \<lparr>rec_id = i, rec_metadata = metadata d, rec_content = page_content d\<rparr>"
    by auto
  from di obtain n where n: "n < length batch" "n < length ids" "batch ! n = d" "ids ! n = i"
    by (auto simp: in_set_zip)
  from assms(2) have "map Some ids ! n = chunk_ids batch ! n" by simp
  with n have "id_md (metadata d) = Some i" by (simp add: chunk_ids_def)
  moreover from n have "d \<in> set batch" by auto
  with assms(3) have "\<exists>s\<in>set cur. source (metadata d) = Some s" by blast
  ultimately show "good_record cur r" by (simp add: good_record_def r)
qed

lemma synced_index_write_batches:
  "write_batches batches db = Inr (db', calls) \<Longrightarrow> synced_index cur db \<Longrightarrow>
   \<forall>batch\<in>set batches. \<forall>c\<in>set batch. \<exists>s\<in>set cur. source (metadata c) = Some s \<Longrightarrow>
   synced_index cur db'"
proof (induction batches arbitrary: db calls)
  case Nil
  then show ?case by simp
next
  case (Cons batch batches)
  from Cons.prems(1) obtain ids where
    ids: "collect (\<lambda>chunk. metadata_id (metadata chunk)) batch = Inr ids"
    by (auto split: sum.splits)
  with Cons.prems(1) obtain calls' where
    w: "write_batches batches (db_add_documents batch ids db) = Inr (db', calls')"
    by (auto split: sum.splits)
  from Cons.prems(3) have b: "\<forall>c\<in>set batch. \<exists>s\<in>set cur. source (metadata c) = Some s"
    and bs: "\<forall>batch\<in>set batches. \<forall>c\<in>set batch. \<exists>s\<in>set cur. source (metadata c) = Some s"
    by simp_all
  have "synced_index cur (db_add_documents batch ids db)"
    using Cons.prems(2) collect_ids_eq [OF ids] b by (rule synced_index_add_documents)
  with w show ?case
    using bs by (rule Cons.IH)
qed

lemma calculate_chunk_ids_sources:
  assumes "\<forall>c\<in>set chunks. \<exists>s\<in>set cur. source (metadata c) = Some s"
    and "c \<in> set (calculate_chunk_ids chunks)"
  shows "\<exists>s\<in>set cur. source (metadata c) = Some s"
proof -
  from assms(2) have "source (metadata c) \<in>
      set (map (\<lambda>c. source (metadata c)) (calculate_chunk_ids chunks))" by simp
  then have "source (metadata c) \<in> set (map (\<lambda>c. source (metadata c)) chunks)"
    by (simp only: calculate_chunk_ids_def chunk_ids_loop_source)
  with assms(1) show ?thesis by auto
qed

lemma synced_index_add_to_chroma:
  assumes "add_to_chroma chunks db = Inr (db', calls)" and "synced_index cur db"
    and "\<forall>c\<in>set chunks. \<exists>s\<in>set cur. source (metadata c) = Some s"
  shows "synced_index cur db'"
proof (cases "new_chunks chunks db = []")
  case True
  with assms(1) have "db' = db"
    by (simp add: add_to_chroma_def new_chunks_of_new_chunks)
  with assms(2) show ?thesis by simp
next
  case False
  with assms(1) have w: "write_batches (batch_loop 0 (new_chunks chunks db)) db = Inr (db', calls)"
    by (simp add: add_to_chroma_def new_chunks_of_new_chunks)
  have "\<exists>s\<in>set cur. source (metadata c) = Some s"
    if "batch \<in> set (batch_loop 0 (new_chunks chunks db))" and "c \<in> set batch" for batch c
  proof -
    from that batch_loop_subset have "c \<in> set (new_chunks chunks db)" by blast
    then have "c \<in> set (calculate_chunk_ids chunks)" by (simp add: new_chunks_def)
    with assms(3) show ?thesis by (rule calculate_chunk_ids_sources)
  qed
  then have "\<forall>batch\<in>set (batch_loop 0 (new_chunks chunks db)). \<forall>c\<in>set batch.
      \<exists>s\<in>set cur. source (metadata c) = Some s"
    by blast
  with w assms(2) show ?thesis by (rule synced_index_write_batches)
qed

lemma synced_index_wf:
  assumes "synced_index cur db"
  shows "wf_index db" and "filter (\<lambda>r. src_of r \<in> set cur) db = db"
proof -
  from assms show "wf_index db"
    by (auto simp: synced_index_def wf_index_def list_all_iff good_record_def)
  from assms have "\<forall>r\<in>set db. src_of r \<in> set cur"
    by (auto simp: synced_index_def list_all_iff good_record_def src_of_def)
  then show "filter (\<lambda>r. src_of r \<in> set cur) db = db" by simp
qed


lemma wf_index_synced:
  assumes "wf_index db"
  shows "synced_index cur (filter (\<lambda>r. src_of r \<in> set cur) db)"
proof -
  from assms have "distinct (map rec_id (filter (\<lambda>r. src_of r \<in> set cur) db))"
    by (simp add: wf_index_def distinct_map_filter)
  moreover have "good_record cur r" if "r \<in> set db" "src_of r \<in> set cur" for r
    using wf_index_record [OF assms that(1)] that(2) by (simp add: good_record_def)
  ultimately show ?thesis by (simp add: synced_index_def list_all_iff)
qed





subsection \<open>A second run that writes again\<close>







subsection \<open>Well-formedness is an invariant of the pipeline\<close>

text \<open>
  The empty index is well-formed, and a run of the pipeline over chunks that carry a source
  leaves a well-formed index well-formed.
\<close>

lemma wf_index_add_to_chroma:
  assumes "add_to_chroma chunks db = Inr (db', calls)" and "wf_index db"
    and "\<forall>c\<in>set chunks. source (metadata c) \<noteq> None"
  shows "wf_index db'"
proof -
  define cur where "cur = map src_of db @
      concat (map (\<lambda>c. case source (metadata c) of None \<Rightarrow> [] | Some s \<Rightarrow> [s]) chunks)"
  have "good_record cur r" if "r \<in> set db" for r
    using wf_index_record [OF assms(2) that] that by (simp add: good_record_def cur_def)
  with assms(2) have "synced_index cur db"
    by (simp add: synced_index_def wf_index_def list_all_iff)
  moreover have "\<forall>c\<in>set chunks. \<exists>s\<in>set cur. source (metadata c) = Some s"
  proof
    fix c assume c: "c \<in> set chunks"
    with assms(3) obtain s where s: "source (metadata c) = Some s" by auto
    with c have "s \<in> set cur" by (force simp: cur_def)
    with s show "\<exists>s\<in>set cur. source (metadata c) = Some s" by blast
  qed
  ultimately have "synced_index cur db'"
    by (rule synced_index_add_to_chroma [OF assms(1)])
  then show ?thesis by (rule synced_index_wf)
qed

lemma wf_index_main:
  assumes "main reset current_sources documents text_splitter db = Inr (db', calls)"
    and "wf_index db"
    and "\<forall>c\<in>set (split_documents text_splitter documents). source (metadata c) \<noteq> None"
  shows "wf_index db'"
proof -
  let ?db0 = "if reset then clear_database db else db"
  from assms(2) have wf0: "wf_index ?db0"
    by (simp add: clear_database_def wf_index_def)
  then have s: "sync_with_directory ?db0 current_sources =
      Inr (filter (\<lambda>r. src_of r \<in> set current_sources) ?db0)"
    by (rule sync_with_directory_filter)
  from wf0 have w: "wf_index (filter (\<lambda>r. src_of r \<in> set current_sources) ?db0)"
    by (rule wf_index_synced [THEN synced_index_wf(1)])
  from assms(1) s have "add_to_chroma (split_documents text_splitter documents)
      (filter (\<lambda>r. src_of r \<in> set current_sources) ?db0) = Inr (db', calls)"
    by (simp add: main_def)
  from this w assms(3) show ?thesis by (rule wf_index_add_to_chroma)
qed

section \<open>Properties of the process supervisor\<close>

lemma handle_live_step:
  "step e s = Some s' \<Longrightarrow> handle_live s \<Longrightarrow> handle_live s'"
  by (cases e; cases "pc s")
     (auto simp: handle_live_def popen_def split: if_splits option.splits)

lemma handle_live_run:
  "run es s = Some s' \<Longrightarrow> handle_live s \<Longrightarrow> handle_live s'"
proof (induction es arbitrary: s)
  case Nil
  then show ?case by simp
next
  case (Cons e es)
  from Cons.prems(1) obtain s1 where s1: "step e s = Some s1" "run es s1 = Some s'"
    by (auto split: option.splits)
  from s1(1) Cons.prems(2) have "handle_live s1" by (rule handle_live_step)
  with s1(2) show ?case by (rule Cons.IH)
qed

lemma handle_live_initial: "handle_live initial"
  by (simp add: handle_live_def initial_def)

lemma stopped_step:
  "step e s = Some s' \<Longrightarrow> e \<noteq> Populate_result True \<Longrightarrow> stopped s \<Longrightarrow>
   stopped s' \<and> next_pid s' = next_pid s"
  by (cases e; cases "pc s")
     (auto simp: stopped_def popen_def split: if_splits option.splits)

lemma stopped_run:
  "run es s = Some s' \<Longrightarrow> Populate_result True \<notin> set es \<Longrightarrow> stopped s \<Longrightarrow>
   stopped s' \<and> next_pid s' = next_pid s"
proof (induction es arbitrary: s)
  case Nil
  then show ?case by simp
next
  case (Cons e es)
  from Cons.prems(1) obtain s1 where s1: "step e s = Some s1" "run es s1 = Some s'"
    by (auto split: option.splits)
  from Cons.prems(2) have e: "e \<noteq> Populate_result True" and es: "Populate_result True \<notin> set es"
    by auto
  from s1(1) e Cons.prems(3) have "stopped s1 \<and> next_pid s1 = next_pid s" by (rule stopped_step)
  moreover from this s1(2) es have "stopped s' \<and> next_pid s' = next_pid s1"
    by (intro Cons.IH) simp_all
  ultimately show ?case by simp
qed

text \<open>
  Claim C4. In every state the supervisor reaches, at most one service process is alive.
  Where a spawn is about to happen (line 52 or line 70) no service process is alive, the
  previous one having been terminated and waited for, and the spawn makes the new process
  the only live one and the one the global refers to.
\<close>

theorem at_most_one_process:
  assumes "run events initial = Some s"
  shows "card (live s) \<le> 1 \<and>
         (pc s \<in> {Main_spawn, Restart_spawn} \<longrightarrow>
            live s = {} \<and>
            (\<exists>s'. step Step s = Some s' \<and> server_process s' = Some (next_pid s) \<and>
                  live s' = {next_pid s}))"
proof -
  from assms handle_live_initial have h: "handle_live s" by (rule handle_live_run)
  then have "live s \<subseteq> (case server_process s of None \<Rightarrow> {} | Some p \<Rightarrow> {p})"
    by (simp add: handle_live_def)
  then have "card (live s) \<le> 1"
    by (cases "server_process s") (auto simp: subset_singleton_iff)
  moreover have "live s = {} \<and>
      (\<exists>s'. step Step s = Some s' \<and> server_process s' = Some (next_pid s) \<and>
            live s' = {next_pid s})"
    if "pc s \<in> {Main_spawn, Restart_spawn}"
  proof -
    from h that have e: "live s = {}" by (auto simp: handle_live_def)
    from that e have "step Step s = Some ((popen s)\<lparr>pc := Watching\<rparr>) \<and>
        server_process ((popen s)\<lparr>pc := Watching\<rparr>) = Some (next_pid s) \<and>
        live ((popen s)\<lparr>pc := Watching\<rparr>) = {next_pid s}"
      by (auto simp: popen_def)
    with e show ?thesis by blast
  qed
  ultimately show ?thesis by blast
qed

lemma run_restart_trace:
  "run restart_trace initial =
     Some \<lparr>pc = Restart_populate, server_process = Some 0, live = {}, next_pid = 1\<rparr>"
  by (simp add: restart_trace_def initial_def popen_def qualifying_def)

theorem at_most_one_process_witness:
  "run (restart_trace @ [Populate_result True]) initial =
     Some \<lparr>pc = Restart_spawn, server_process = Some 0, live = {}, next_pid = 1\<rparr> \<and>
   card (live \<lparr>pc = Restart_spawn, server_process = Some 0, live = {}, next_pid = 1\<rparr>) \<le> 1 \<and>
   (\<exists>s'. step Step \<lparr>pc = Restart_spawn, server_process = Some 0, live = {}, next_pid = 1\<rparr> = Some s' \<and>
      server_process s' = Some 1 \<and> live s' = {1})"
proof -
  let ?s = "\<lparr>pc = Restart_spawn, server_process = Some 0, live = {}, next_pid = 1\<rparr>"
  have r: "run (restart_trace @ [Populate_result True]) initial = Some ?s"
    by (simp add: restart_trace_def initial_def popen_def qualifying_def)
  from at_most_one_process [OF r] r show ?thesis by simp
qed

text \<open>
  Claim C6. When the synchronization subprocess of a restart cycle fails, the cycle ends
  at once: the supervisor is back at watching, no process has been spawned (the next process
  id and the global are unchanged) and no service process is alive; and none is alive in any
  state reached afterwards, as long as no synchronization succeeds.
\<close>

theorem failed_sync_leaves_stopped:
  assumes "run events initial = Some s" and "pc s = Restart_populate"
  shows "\<exists>s'. step (Populate_result False) s = Some s' \<and>
           pc s' = Watching \<and> live s' = {} \<and>
           server_process s' = server_process s \<and> next_pid s' = next_pid s \<and>
           (\<forall>later t. Populate_result True \<notin> set later \<and> run later s' = Some t \<longrightarrow>
              live t = {} \<and> next_pid t = next_pid s)"
proof -
  from assms(1) handle_live_initial have "handle_live s" by (rule handle_live_run)
  with assms(2) have e: "live s = {}" by (simp add: handle_live_def)
  let ?s' = "s\<lparr>pc := Watching\<rparr>"
  have st: "step (Populate_result False) s = Some ?s'"
    using assms(2) by simp
  from e have stopped: "stopped ?s'" by (simp add: stopped_def)
  have "live t = {} \<and> next_pid t = next_pid s"
    if "Populate_result True \<notin> set later \<and> run later ?s' = Some t" for later t
  proof -
    from that have "run later ?s' = Some t" and "Populate_result True \<notin> set later" by simp_all
    from this stopped have "stopped t \<and> next_pid t = next_pid ?s'" by (rule stopped_run)
    then show ?thesis by (simp add: stopped_def)
  qed
  with st e show ?thesis by auto
qed

theorem failed_sync_leaves_stopped_witness:
  "run restart_trace initial =
     Some \<lparr>pc = Restart_populate, server_process = Some 0, live = {}, next_pid = 1\<rparr> \<and>
   run (restart_trace @ [Populate_result False, File_event False ''created'', Step, Step, Step,
        Populate_result False]) initial =
     Some \<lparr>pc = Watching, server_process = Some 0, live = {}, next_pid = 1\<rparr>"
proof -
  let ?s = "\<lparr>pc = Restart_populate, server_process = Some 0, live = {}, next_pid = 1\<rparr>"
  let ?later = "[File_event False ''created'', Step, Step, Step, Populate_result False]"
  have p: "pc ?s = Restart_populate" by simp
  from failed_sync_leaves_stopped [OF run_restart_trace p] obtain s' where
    s': "step (Populate_result False) ?s = Some s'"
    and l: "\<forall>later t. Populate_result True \<notin> set later \<and> run later s' = Some t \<longrightarrow>
              live t = {} \<and> next_pid t = next_pid ?s"
    by blast
  have r: "run ?later s' = Some \<lparr>pc = Watching, server_process = Some 0, live = {}, next_pid = 1\<rparr>"
    using s' by (auto simp: qualifying_def)
  have "Populate_result True \<notin> set ?later" by simp
  with l r have "live \<lparr>pc = Watching, server_process = Some 0, live = {}, next_pid = 1\<rparr> = {}"
    by blast
  moreover have "run (restart_trace @ [Populate_result False] @ ?later) initial =
      Some \<lparr>pc = Watching, server_process = Some 0, live = {}, next_pid = 1\<rparr>"
    by (simp add: restart_trace_def initial_def popen_def qualifying_def)
  ultimately show ?thesis using run_restart_trace by simp
qed

section \<open>Properties of the log store\<close>

lemma log_to_json_body_raises:
  "fst (log_to_json_body json_load json_dump env data) = Some r \<Longrightarrow> is_Exception r"
  by (auto simp: log_to_json_body_def is_Exception_def split: sum.splits prod.splits option.splits)

text \<open>
  Claim C9, as amended. When the log file exists, its text is read and \<open>json.load\<close> raises
  \<open>JSONDecodeError\<close> on it, and the file is then opened for writing and dumped without an
  error, \<open>log_to_json\<close> rewrites the file to the serialization of the one-element list
  holding the new record, whatever the text was, and prints nothing. When reading raises
  another exception than the two the inner handler names, the file is left as it is and
  the error is printed. In every case no exception reaches the caller.
\<close>

theorem log_to_json_unparseable:
  "(read_fault env = None \<and> log_file env = Some content \<and>
    json_load content = Inl JSONDecodeError \<and>
    open_write_fault env = None \<and> dump_fault env = None \<longrightarrow>
      log_to_json json_load json_dump env data =
        \<lparr>propagated = None, log_file_after = Some (json_dump (JList [data])), printed = []\<rparr>) \<and>
   (read_fault env = Some e \<and> e \<noteq> FileNotFoundError \<and> e \<noteq> JSONDecodeError \<longrightarrow>
      log_to_json json_load json_dump env data =
        \<lparr>propagated = None, log_file_after = log_file env, printed = [''Error logging data'']\<rparr>) \<and>
   propagated (log_to_json json_load json_dump env data) = None"
proof (intro conjI impI)
  assume a: "read_fault env = None \<and> log_file env = Some content \<and>
    json_load content = Inl JSONDecodeError \<and>
    open_write_fault env = None \<and> dump_fault env = None"
  then have "inner_try json_load env = Inr (JList [])"
    by (simp add: inner_try_def read_logs_def)
  moreover from a have "write_logs json_dump env (JList [data]) = (None, Some (json_dump (JList [data])))"
    by (simp add: write_logs_def)
  ultimately have "log_to_json_body json_load json_dump env data =
      (None, Some (json_dump (JList [data])))"
    by (simp add: log_to_json_body_def logs_append_def)
  then show "log_to_json json_load json_dump env data =
        \<lparr>propagated = None, log_file_after = Some (json_dump (JList [data])), printed = []\<rparr>"
    by (simp add: log_to_json_def)
next
  assume "read_fault env = Some e \<and> e \<noteq> FileNotFoundError \<and> e \<noteq> JSONDecodeError"
  then have "inner_try json_load env = Inl e"
    by (simp add: inner_try_def read_logs_def)
  then have "log_to_json_body json_load json_dump env data = (Some (Exception e), log_file env)"
    by (simp add: log_to_json_body_def)
  then show "log_to_json json_load json_dump env data =
        \<lparr>propagated = None, log_file_after = log_file env, printed = [''Error logging data'']\<rparr>"
    by (simp add: log_to_json_def is_Exception_def)
next
  obtain r after where b: "log_to_json_body json_load json_dump env data = (r, after)"
    by (cases "log_to_json_body json_load json_dump env data")
  show "propagated (log_to_json json_load json_dump env data) = None"
  proof (cases r)
    case None
    with b show ?thesis by (simp add: log_to_json_def)
  next
    case (Some x)
    with b have "is_Exception x"
      using log_to_json_body_raises [of json_load json_dump env data x] by simp
    with b Some show ?thesis by (simp add: log_to_json_def)
  qed
qed

theorem log_to_json_unparseable_witness:
  "read_fault damaged_env = None \<and> log_file damaged_env = Some ''[{query_text: '' \<and>
   example_json_load ''[{query_text: '' = Inl JSONDecodeError \<and>
   open_write_fault damaged_env = None \<and> dump_fault damaged_env = None \<and>
   log_to_json example_json_load example_json_dump damaged_env example_record =
     \<lparr>propagated = None, log_file_after = Some ''[entries: 1]'', printed = []\<rparr> \<and>
   read_fault undecodable_env = Some UnicodeDecodeError \<and>
   log_to_json example_json_load example_json_dump undecodable_env example_record =
     \<lparr>propagated = None, log_file_after = log_file undecodable_env,
      printed = [''Error logging data'']\<rparr>"
proof -
  have h: "read_fault damaged_env = None \<and> log_file damaged_env = Some ''[{query_text: '' \<and>
      example_json_load ''[{query_text: '' = Inl JSONDecodeError \<and>
      open_write_fault damaged_env = None \<and> dump_fault damaged_env = None"
    by (simp add: damaged_env_def example_json_load_def)
  have u: "read_fault undecodable_env = Some UnicodeDecodeError \<and>
      UnicodeDecodeError \<noteq> FileNotFoundError \<and> UnicodeDecodeError \<noteq> JSONDecodeError"
    by (simp add: undecodable_env_def)
  have d: "example_json_dump (JList [example_record]) = ''[entries: 1]''"
    by (simp add: example_json_dump_def str_nat.simps digit_char_def)
  from log_to_json_unparseable [where env = damaged_env and content = "''[{query_text: ''"
      and json_load = example_json_load and json_dump = example_json_dump
      and data = example_record] h
  have 1: "log_to_json example_json_load example_json_dump damaged_env example_record =
     \<lparr>propagated = None, log_file_after = Some ''[entries: 1]'', printed = []\<rparr>"
    by (simp add: d)
  from log_to_json_unparseable [where env = undecodable_env and e = UnicodeDecodeError
      and json_load = example_json_load and json_dump = example_json_dump
      and data = example_record] u
  have 2: "log_to_json example_json_load example_json_dump undecodable_env example_record =
     \<lparr>propagated = None, log_file_after = log_file undecodable_env,
      printed = [''Error logging data'']\<rparr>"
    by simp
  from h u 1 2 show ?thesis by simp
qed

text \<open>
  Claim C9 as stated fails on the code. A log file whose bytes do not decode exists and does
  not parse, but reading it raises \<open>UnicodeDecodeError\<close>, which the inner handler does not
  name: the file keeps its bytes and is not rewritten to the new record. A log file whose
  text is not JSON but which cannot be opened for writing is not rewritten either.
\<close>

theorem log_to_json_not_rewritten:
  "log_file undecodable_env = Some [CHR 0xFF, CHR 0xFE] \<and>
   log_to_json example_json_load example_json_dump undecodable_env example_record =
     \<lparr>propagated = None, log_file_after = Some [CHR 0xFF, CHR 0xFE],
      printed = [''Error logging data'']\<rparr> \<and>
   example_json_dump (JList [example_record]) = ''[entries: 1]'' \<and>
   log_file read_only_env = Some ''[{query_text: '' \<and>
   example_json_load ''[{query_text: '' = Inl JSONDecodeError \<and>
   log_to_json example_json_load example_json_dump read_only_env example_record =
     \<lparr>propagated = None, log_file_after = Some ''[{query_text: '',
      printed = [''Error logging data'']\<rparr>"
  by (simp add: undecodable_env_def read_only_env_def example_json_load_def example_json_dump_def
      example_record_def log_to_json_def log_to_json_body_def inner_try_def read_logs_def
      logs_append_def write_logs_def is_Exception_def str_nat.simps digit_char_def)

end
